theory Spec2Isabelle
  imports Main "HOL-Library.Sublist"
begin

section \<open>Bytes, panics and the library calls of renderer.go\<close>

text \<open>
  A Go \<^verbatim>\<open>[]byte\<close> or \<^verbatim>\<open>string\<close> is a \<^typ>\<open>string\<close> (a list of bytes).  A line
  segment of the source (\<^verbatim>\<open>text.Segment\<close>) is represented by the bytes it denotes,
  \<^verbatim>\<open>line.Value(source)\<close>; \<^verbatim>\<open>line.Len()\<close> is their number.
\<close>

abbreviation NL :: char where
  "NL \<equiv> CHR 0x0A"

text \<open>The run-time panics the renderer's code can raise.\<close>

datatype panic = IndexOutOfRange | NegativeRepeatCount | TypeAssertion

text \<open>The only error of the sink: a write that it did not take whole.\<close>

datatype error = WriteFailed

datatype WalkStatus = WalkStop | WalkSkipChildren | WalkContinue

text \<open>\<^verbatim>\<open>strings.Repeat(s, count)\<close>: panics on a negative count.\<close>

definition Repeat :: "string \<Rightarrow> int \<Rightarrow> panic + string" where
  "Repeat s count =
     (if count < 0 then Inl NegativeRepeatCount
      else Inr (concat (replicate (nat count) s)))"

text \<open>Indexing a Go array or slice, \<^verbatim>\<open>xs[i]\<close>: panics out of range.\<close>

definition index :: "'a list \<Rightarrow> int \<Rightarrow> panic + 'a" where
  "index xs i =
     (if 0 \<le> i \<and> i < int (length xs) then Inr (xs ! nat i)
      else Inl IndexOutOfRange)"

subsection \<open>The buffered writer\<close>

text \<open>
  \<^verbatim>\<open>util.BufWriter\<close> is an interface of goldmark.  The model keeps the bytes the sink
  has accepted, how many more it accepts before its writes fail (\<open>None\<close>: it never
  fails), and the error of a write that failed, which the sink keeps as
  \<^verbatim>\<open>bufio.Writer\<close> does.  \<open>bufWrite\<close> is \<^verbatim>\<open>writer.Write(p)\<close> under the contract of
  \<^verbatim>\<open>io.Writer\<close>: it returns the number of bytes written and an error exactly when
  that number is less than \<^verbatim>\<open>len(p)\<close>.  \<open>Flush\<close> is \<^verbatim>\<open>writer.Flush()\<close>: it returns the
  error that the sink has kept.
\<close>

record BufWriter =
  out :: string
  room :: "nat option"
  failure :: "error option"

definition bufWrite :: "BufWriter \<Rightarrow> string \<Rightarrow> BufWriter \<times> nat \<times> error option" where
  "bufWrite w p =
     (case room w of
        None \<Rightarrow> (w\<lparr>out := out w @ p\<rparr>, length p, None)
      | Some k \<Rightarrow>
          if length p \<le> k
          then (w\<lparr>out := out w @ p, room := Some (k - length p)\<rparr>, length p, None)
          else (w\<lparr>out := out w @ take k p, room := Some 0, failure := Some WriteFailed\<rparr>,
                k, Some WriteFailed))"

definition Flush :: "BufWriter \<Rightarrow> error option" where
  "Flush w = failure w"

text \<open>
  \<^verbatim>\<open>fmt.Fprint(w, s)\<close> and \<^verbatim>\<open>fmt.Fprintf(w, format, ...)\<close> with the formatted bytes
  \<open>s\<close>: one write to the sink; the source drops both results.
\<close>

definition Fprint :: "BufWriter \<Rightarrow> string \<Rightarrow> BufWriter" where
  "Fprint w s = fst (bufWrite w s)"

subsection \<open>defaultWriter\<close>

text \<open>
  The writer keeps the slice of its last write and the number of bytes the sink
  reported.  The slices written are parts of the source, which is read only while a
  tree is rendered, or fresh byte strings: the slice kept is modelled by its value.
\<close>

record defaultWriter =
  lastWriteBytes :: string
  lastWriteLen :: nat

text \<open>\<^verbatim>\<open>func (d *defaultWriter) Write(writer, source)\<close>: the sink's error is dropped.\<close>

definition Write :: "defaultWriter \<Rightarrow> BufWriter \<Rightarrow> string \<Rightarrow> defaultWriter \<times> BufWriter" where
  "Write d wr source =
     (case bufWrite wr source of
        (wr', n, _) \<Rightarrow> (d\<lparr>lastWriteBytes := source, lastWriteLen := n\<rparr>, wr'))"

definition LastWriteBytes :: "defaultWriter \<Rightarrow> string \<times> nat" where
  "LastWriteBytes d = (lastWriteBytes d, lastWriteLen d)"

subsection \<open>Configuration\<close>

text \<open>
  Modelled from the spec: the option types of \<^verbatim>\<open>Config\<close> are declared outside
  renderer.go.  The heading style is one of the four constants renderer.go and the
  spec name (ATX, ATX with closing hashes, Setext, Setext with a full-width
  underline); \<open>IsSetext\<close> holds of the two Setext styles.
\<close>

datatype HeadingStyle =
  HeadingStyleATX | HeadingStyleATXSurround | HeadingStyleSetext | HeadingStyleFullWidthSetext

fun IsSetext :: "HeadingStyle \<Rightarrow> bool" where
  "IsSetext HeadingStyleSetext = True"
| "IsSetext HeadingStyleFullWidthSetext = True"
| "IsSetext _ = False"

text \<open>
  Modelled from the spec: the fixed minimum of the thematic-break length, declared
  outside renderer.go (the spec: values below 3 are clamped up to 3).
\<close>

definition ThematicBreakLengthMinimum :: int where
  "ThematicBreakLengthMinimum = 3"

text \<open>
  Modelled from the spec: the record of options \<^verbatim>\<open>Config\<close>, declared outside
  renderer.go, with the fields renderer.go reads.  \<open>ThematicBreakStyle\<close> and
  \<open>ThematicBreakLength\<close> are Go integers; \<open>IndentStyle\<close> is the opaque indentation
  byte sequence that \<^verbatim>\<open>IndentStyle.bytes()\<close> returns.
\<close>

record Config =
  HeadingStyle :: HeadingStyle
  ThematicBreakStyle :: int
  ThematicBreakLength :: int
  IndentStyle :: string

text \<open>\<^verbatim>\<open>type Renderer struct { Config; writer Writer }\<close>\<close>

record Renderer = Config +
  writer :: defaultWriter

text \<open>\<^verbatim>\<open>r.writer.Write(w, bs)\<close>: updates the renderer's writer and the sink.\<close>

definition writer_Write :: "Renderer \<Rightarrow> BufWriter \<Rightarrow> string \<Rightarrow> Renderer \<times> BufWriter" where
  "writer_Write r w bs =
     (case Write (writer r) w bs of (d, w') \<Rightarrow> (r\<lparr>writer := d\<rparr>, w'))"

section \<open>The document tree\<close>

text \<open>
  A node has a kind with the kind's own fields, and its children in order.  The
  fields are those the renderers read: of a heading its level and its lines; of a
  code block its lines; of a fenced code block its language (\<^verbatim>\<open>n.Language(source)\<close>,
  \<open>None\<close> for \<^verbatim>\<open>nil\<close>) and its lines; of an HTML block its lines and its closure
  line (\<open>None\<close> when \<^verbatim>\<open>n.HasClosure()\<close> is false); of a text its bytes
  (\<^verbatim>\<open>n.Text(source)\<close>) and whether a soft line break follows.  A node of any other
  Go type is \<open>KindOther\<close>, with the kind that it reports.  The next sibling of a node
  (\<^verbatim>\<open>node.NextSibling()\<close>, \<open>None\<close> for \<^verbatim>\<open>nil\<close>) is passed along with it.
\<close>

text \<open>
  \<^verbatim>\<open>ast.NodeKind\<close>, an integer of goldmark: \<^verbatim>\<open>ast.NewNodeKind\<close> numbers the kinds from 1
  in the order in which they are created.  The kinds of the package \<^verbatim>\<open>ast\<close> come
  first, its block kinds before its inline kinds; a kind created later (by an
  extension of goldmark) has a greater number, \<open>ast_KindLater i\<close> being the one
  created \<open>i\<close> kinds after the last kind of \<^verbatim>\<open>ast\<close>.
\<close>

datatype NodeKind =
  ast_KindDocument | ast_KindTextBlock | ast_KindParagraph | ast_KindHeading
| ast_KindThematicBreak | ast_KindCodeBlock | ast_KindFencedCodeBlock | ast_KindBlockquote
| ast_KindList | ast_KindListItem | ast_KindHTMLBlock
| ast_KindText | ast_KindString | ast_KindCodeSpan | ast_KindEmphasis | ast_KindLink
| ast_KindImage | ast_KindAutoLink | ast_KindRawHTML
| ast_KindLater nat

fun kindNumber :: "NodeKind \<Rightarrow> nat" where
  "kindNumber ast_KindDocument = 1"
| "kindNumber ast_KindTextBlock = 2"
| "kindNumber ast_KindParagraph = 3"
| "kindNumber ast_KindHeading = 4"
| "kindNumber ast_KindThematicBreak = 5"
| "kindNumber ast_KindCodeBlock = 6"
| "kindNumber ast_KindFencedCodeBlock = 7"
| "kindNumber ast_KindBlockquote = 8"
| "kindNumber ast_KindList = 9"
| "kindNumber ast_KindListItem = 10"
| "kindNumber ast_KindHTMLBlock = 11"
| "kindNumber ast_KindText = 12"
| "kindNumber ast_KindString = 13"
| "kindNumber ast_KindCodeSpan = 14"
| "kindNumber ast_KindEmphasis = 15"
| "kindNumber ast_KindLink = 16"
| "kindNumber ast_KindImage = 17"
| "kindNumber ast_KindAutoLink = 18"
| "kindNumber ast_KindRawHTML = 19"
| "kindNumber (ast_KindLater i) = 20 + i"

record Heading =
  Level :: int
  Lines :: "string list"

datatype kind =
  KindDocument
| KindHeading Heading
| KindCodeBlock "string list"
| KindParagraph
| KindThematicBreak
| KindFencedCodeBlock "string option" "string list"
| KindHTMLBlock "string list" "string option"
| KindText string bool
| KindOther NodeKind

datatype node = Node (Kind: kind) (Children: "node list")

text \<open>\<^verbatim>\<open>n.Kind()\<close>: the kind that a node reports.\<close>

fun NodeKindOf :: "kind \<Rightarrow> NodeKind" where
  "NodeKindOf KindDocument = ast_KindDocument"
| "NodeKindOf (KindHeading _) = ast_KindHeading"
| "NodeKindOf (KindCodeBlock _) = ast_KindCodeBlock"
| "NodeKindOf KindParagraph = ast_KindParagraph"
| "NodeKindOf KindThematicBreak = ast_KindThematicBreak"
| "NodeKindOf (KindFencedCodeBlock _ _) = ast_KindFencedCodeBlock"
| "NodeKindOf (KindHTMLBlock _ _) = ast_KindHTMLBlock"
| "NodeKindOf (KindText _ _) = ast_KindText"
| "NodeKindOf (KindOther k) = k"

definition HasChildren :: "node \<Rightarrow> bool" where
  "HasChildren n = (Children n \<noteq> [])"

section \<open>The renderers\<close>

type_synonym outcome = "panic + (Renderer \<times> BufWriter \<times> WalkStatus \<times> error option)"

text \<open>\<^verbatim>\<open>return ast.WalkContinue, nil\<close> in the state reached.\<close>

definition continue :: "Renderer \<times> BufWriter \<Rightarrow> outcome" where
  "continue s = (case s of (r, w) \<Rightarrow> Inr (r, w, WalkContinue, None))"

definition renderBlockSeparator :: "Renderer \<Rightarrow> BufWriter \<Rightarrow> node option \<Rightarrow> Renderer \<times> BufWriter" where
  "renderBlockSeparator r w nxt =
     (if nxt \<noteq> None then writer_Write r w [NL, NL] else (r, w))"

text \<open>The loops over \<^verbatim>\<open>n.Lines()\<close>: one write per line, in order.\<close>

definition writeLines :: "Renderer \<Rightarrow> BufWriter \<Rightarrow> string list \<Rightarrow> Renderer \<times> BufWriter" where
  "writeLines r w ls = foldl (\<lambda>s line. case s of (r', w') \<Rightarrow> writer_Write r' w' line) (r, w) ls"

definition writeIndentedLines :: "Renderer \<Rightarrow> BufWriter \<Rightarrow> string list \<Rightarrow> Renderer \<times> BufWriter" where
  "writeIndentedLines r w ls =
     foldl (\<lambda>s line. case s of (r', w') \<Rightarrow>
              (case writer_Write r' w' (IndentStyle r') of
                 (r'', w'') \<Rightarrow> writer_Write r'' w'' line)) (r, w) ls"

definition renderDocument ::
  "Renderer \<Rightarrow> BufWriter \<Rightarrow> node \<Rightarrow> node option \<Rightarrow> bool \<Rightarrow> outcome" where
  "renderDocument r w node nxt entering =
     (if \<not> entering then
        (case LastWriteBytes (writer r) of
           (b, l) \<Rightarrow>
             if l = 0 then continue (writer_Write r w [NL])
             else (case index b (int l - 1) of
                     Inl p \<Rightarrow> Inl p
                   | Inr c \<Rightarrow>
                       if c \<noteq> NL then continue (writer_Write r w [NL])
                       else continue (r, w)))
      else continue (r, w))"

definition renderATXHeading ::
  "Renderer \<Rightarrow> BufWriter \<Rightarrow> Heading \<Rightarrow> node \<Rightarrow> node option \<Rightarrow> bool \<Rightarrow> outcome" where
  "renderATXHeading r w h node nxt entering =
     (if entering then
        (case Repeat ''#'' (Level h) of
           Inl p \<Rightarrow> Inl p
         | Inr atxHeadingChars \<Rightarrow>
             let w1 = Fprint w atxHeadingChars
             in if HasChildren node then continue (r, Fprint w1 '' '')
                else continue (r, w1))
      else
        (if HeadingStyle r = HeadingStyleATXSurround then
           (case Repeat ''#'' (Level h) of
              Inl p \<Rightarrow> Inl p
            | Inr atxHeadingChars \<Rightarrow>
                continue (renderBlockSeparator r (Fprint w ('' '' @ atxHeadingChars)) nxt))
         else continue (renderBlockSeparator r w nxt)))"

text \<open>The loop of \<^verbatim>\<open>renderSetextHeading\<close> over the heading's lines.\<close>

definition underlineWidthOf :: "string list \<Rightarrow> int" where
  "underlineWidthOf ls =
     foldl (\<lambda>underlineWidth line.
              let lineWidth = int (length line)
              in if lineWidth > underlineWidth then lineWidth else underlineWidth) 3 ls"

definition renderSetextHeading ::
  "Renderer \<Rightarrow> BufWriter \<Rightarrow> Heading \<Rightarrow> node \<Rightarrow> node option \<Rightarrow> bool \<Rightarrow> outcome" where
  "renderSetextHeading r w h node nxt entering =
     (if entering then continue (r, w)
      else
        (case index [[], ''='', ''-''] (Level h) of
           Inl p \<Rightarrow> Inl p
         | Inr underlineChar \<Rightarrow>
             let underlineWidth =
                   (if HeadingStyle r = HeadingStyleFullWidthSetext
                    then underlineWidthOf (Lines h) else 3)
             in (case Repeat underlineChar underlineWidth of
                   Inl p \<Rightarrow> Inl p
                 | Inr underline \<Rightarrow>
                     continue (renderBlockSeparator r (Fprint w (NL # underline)) nxt))))"

definition renderHeading ::
  "Renderer \<Rightarrow> BufWriter \<Rightarrow> node \<Rightarrow> node option \<Rightarrow> bool \<Rightarrow> outcome" where
  "renderHeading r w node nxt entering =
     (case Kind node of
        KindHeading n \<Rightarrow>
          if \<not> HasChildren node \<or> Level n > 2 then renderATXHeading r w n node nxt entering
          else if length (Lines n) > 1 then renderSetextHeading r w n node nxt entering
          else if IsSetext (HeadingStyle r) then renderSetextHeading r w n node nxt entering
          else renderATXHeading r w n node nxt entering
      | _ \<Rightarrow> Inl TypeAssertion)"

definition renderParagraph ::
  "Renderer \<Rightarrow> BufWriter \<Rightarrow> node \<Rightarrow> node option \<Rightarrow> bool \<Rightarrow> outcome" where
  "renderParagraph r w node nxt entering =
     (if \<not> entering then continue (renderBlockSeparator r w nxt)
      else continue (r, w))"

definition renderText ::
  "Renderer \<Rightarrow> BufWriter \<Rightarrow> node \<Rightarrow> node option \<Rightarrow> bool \<Rightarrow> outcome" where
  "renderText r w node nxt entering =
     (case Kind node of
        KindText txt softLineBreak \<Rightarrow>
          if entering then
            (case writer_Write r w txt of
               (r1, w1) \<Rightarrow>
                 if softLineBreak then continue (writer_Write r1 w1 [NL])
                 else continue (r1, w1))
          else continue (r, w)
      | _ \<Rightarrow> Inl TypeAssertion)"

definition renderThematicBreak ::
  "Renderer \<Rightarrow> BufWriter \<Rightarrow> node \<Rightarrow> node option \<Rightarrow> bool \<Rightarrow> outcome" where
  "renderThematicBreak r w node nxt entering =
     (if entering then
        (case index [''-'', ''*'', ''_''] (ThematicBreakStyle r) of
           Inl p \<Rightarrow> Inl p
         | Inr breakChar \<Rightarrow>
             let breakLen =
                   (if ThematicBreakLength r < ThematicBreakLengthMinimum
                    then ThematicBreakLengthMinimum
                    else ThematicBreakLength r)
             in (case Repeat breakChar breakLen of
                   Inl p \<Rightarrow> Inl p
                 | Inr thematicBreak \<Rightarrow> continue (writer_Write r w thematicBreak)))
      else continue (renderBlockSeparator r w nxt))"

definition renderCodeBlock ::
  "Renderer \<Rightarrow> BufWriter \<Rightarrow> node \<Rightarrow> node option \<Rightarrow> bool \<Rightarrow> outcome" where
  "renderCodeBlock r w node nxt entering =
     (case Kind node of
        KindCodeBlock ls \<Rightarrow>
          if entering then continue (writeIndentedLines r w ls)
          else continue (renderBlockSeparator r w nxt)
      | _ \<Rightarrow> Inl TypeAssertion)"

definition renderFencedCodeBlock ::
  "Renderer \<Rightarrow> BufWriter \<Rightarrow> node \<Rightarrow> node option \<Rightarrow> bool \<Rightarrow> outcome" where
  "renderFencedCodeBlock r w node nxt entering =
     (case Kind node of
        KindFencedCodeBlock language ls \<Rightarrow>
          (case writer_Write r w ''```'' of
             (r1, w1) \<Rightarrow>
               if entering then
                 (case (case language of
                          Some lang \<Rightarrow> writer_Write r1 w1 lang
                        | None \<Rightarrow> (r1, w1)) of
                    (r2, w2) \<Rightarrow>
                      (case writer_Write r2 w2 [NL] of
                         (r3, w3) \<Rightarrow> continue (writeLines r3 w3 ls)))
               else continue (renderBlockSeparator r1 w1 nxt))
      | _ \<Rightarrow> Inl TypeAssertion)"

definition renderHTMLBlock ::
  "Renderer \<Rightarrow> BufWriter \<Rightarrow> node \<Rightarrow> node option \<Rightarrow> bool \<Rightarrow> outcome" where
  "renderHTMLBlock r w node nxt entering =
     (case Kind node of
        KindHTMLBlock ls closureLine \<Rightarrow>
          if entering then continue (writeLines r w ls)
          else
            (case (case closureLine of
                     Some closure \<Rightarrow> writer_Write r w closure
                   | None \<Rightarrow> (r, w)) of
               (r1, w1) \<Rightarrow> continue (renderBlockSeparator r1 w1 nxt))
      | _ \<Rightarrow> Inl TypeAssertion)"

section \<open>Dispatch and traversal\<close>

type_synonym NodeRendererFunc =
  "Renderer \<Rightarrow> BufWriter \<Rightarrow> node \<Rightarrow> node option \<Rightarrow> bool \<Rightarrow> outcome"

text \<open>
  \<^verbatim>\<open>RegisterFuncs\<close>: the calls of \<^verbatim>\<open>reg.Register(kind, r.render...)\<close>, in the order of the
  source.  The renderers of the kinds under \<^verbatim>\<open>TODO\<close> are not registered.
\<close>

definition RegisterFuncs :: "(NodeKind \<times> NodeRendererFunc) list" where
  "RegisterFuncs =
     [(ast_KindDocument, renderDocument),
      (ast_KindHeading, renderHeading),
      (ast_KindCodeBlock, renderCodeBlock),
      (ast_KindParagraph, renderParagraph),
      (ast_KindThematicBreak, renderThematicBreak),
      (ast_KindFencedCodeBlock, renderFencedCodeBlock),
      (ast_KindHTMLBlock, renderHTMLBlock),
      (ast_KindText, renderText)]"

text \<open>
  The table of goldmark's \<^verbatim>\<open>renderer\<close>.  \<^verbatim>\<open>Register\<close> stores the function under its kind
  and raises \<^verbatim>\<open>maxKind\<close> to the greatest kind registered; the first \<^verbatim>\<open>Render\<close> makes
  the slice \<^verbatim>\<open>nodeRendererFuncs\<close> of length \<^verbatim>\<open>maxKind+1\<close>, \<^verbatim>\<open>nil\<close> where nothing is
  registered.
\<close>

definition maxKind :: nat where
  "maxKind = foldl (\<lambda>m (k, f). if kindNumber k > m then kindNumber k else m) 0 RegisterFuncs"

definition nodeRendererFuncsTmp :: "nat \<Rightarrow> NodeRendererFunc option" where
  "nodeRendererFuncsTmp = foldl (\<lambda>m (k, f). m(kindNumber k \<mapsto> f)) Map.empty RegisterFuncs"

definition nodeRendererFuncs :: "NodeRendererFunc option list" where
  "nodeRendererFuncs = map nodeRendererFuncsTmp [0..<maxKind + 1]"

text \<open>
  The function that \<^verbatim>\<open>Render\<close> passes to the walk:
  \<^verbatim>\<open>f := r.nodeRendererFuncs[n.Kind()]; if f != nil { s, err = f(writer, source, n, entering) }\<close>.
  A kind within the table that has no renderer is passed through with
  \<open>WalkContinue\<close>; for a kind above \<^verbatim>\<open>maxKind\<close> the lookup panics.
\<close>

definition nodeRendererFunc :: NodeRendererFunc where
  "nodeRendererFunc r w node nxt entering =
     (case index nodeRendererFuncs (int (kindNumber (NodeKindOf (Kind node)))) of
        Inl p \<Rightarrow> Inl p
      | Inr None \<Rightarrow> continue (r, w)
      | Inr (Some f) \<Rightarrow> f r w node nxt entering)"

text \<open>
  The traversal of goldmark (\<^verbatim>\<open>ast.Walk\<close>), as the spec describes it: depth first,
  the renderer of a node called on entry before its children and on exit after
  them; an error or \<open>WalkStop\<close> ends the walk, \<open>WalkSkipChildren\<close> on entry skips the
  children.
\<close>

fun walkHelper :: "Renderer \<Rightarrow> BufWriter \<Rightarrow> node \<Rightarrow> node option \<Rightarrow> outcome"
  and walkChildren :: "Renderer \<Rightarrow> BufWriter \<Rightarrow> node list \<Rightarrow> outcome" where
  "walkHelper r w (Node k cs) nxt =
     (case nodeRendererFunc r w (Node k cs) nxt True of
        Inl p \<Rightarrow> Inl p
      | Inr (r1, w1, status, err) \<Rightarrow>
          if err \<noteq> None \<or> status = WalkStop then Inr (r1, w1, status, err)
          else
            (case (if status \<noteq> WalkSkipChildren then walkChildren r1 w1 cs
                   else Inr (r1, w1, WalkContinue, None)) of
               Inl p \<Rightarrow> Inl p
             | Inr (r2, w2, st, err2) \<Rightarrow>
                 if err2 \<noteq> None \<or> st = WalkStop then Inr (r2, w2, WalkStop, err2)
                 else
                   (case nodeRendererFunc r2 w2 (Node k cs) nxt False of
                      Inl p \<Rightarrow> Inl p
                    | Inr (r3, w3, status3, err3) \<Rightarrow>
                        if err3 \<noteq> None \<or> status3 = WalkStop
                        then Inr (r3, w3, WalkStop, err3)
                        else Inr (r3, w3, WalkContinue, None))))"
| "walkChildren r w [] = Inr (r, w, WalkContinue, None)"
| "walkChildren r w (c # cs) =
     (case walkHelper r w c (case cs of [] \<Rightarrow> None | c' # _ \<Rightarrow> Some c') of
        Inl p \<Rightarrow> Inl p
      | Inr (r1, w1, st, err) \<Rightarrow>
          if err \<noteq> None \<or> st = WalkStop then Inr (r1, w1, WalkStop, err)
          else walkChildren r1 w1 cs)"

text \<open>
  \<^verbatim>\<open>NewNodeRenderer\<close>: the configuration with a fresh \<^verbatim>\<open>defaultWriter\<close>.
\<close>

definition NewNodeRenderer :: "Config \<Rightarrow> Renderer" where
  "NewNodeRenderer c =
     \<lparr>HeadingStyle = HeadingStyle c, ThematicBreakStyle = ThematicBreakStyle c,
      ThematicBreakLength = ThematicBreakLength c, IndentStyle = IndentStyle c,
      writer = \<lparr>lastWriteBytes = [], lastWriteLen = 0\<rparr>\<rparr>"

text \<open>
  \<^verbatim>\<open>Render\<close> of goldmark's \<^verbatim>\<open>renderer\<close>, from the state in which the renderer and the
  sink are when it is called: the walk, and then
  \<^verbatim>\<open>if err != nil { return err }; return writer.Flush()\<close>.  The renderer is the same
  object from one call to the next, so its writer keeps the record of the call
  before.
\<close>

definition renderer_Render ::
  "Renderer \<Rightarrow> BufWriter \<Rightarrow> node \<Rightarrow> panic + (Renderer \<times> BufWriter \<times> error option)" where
  "renderer_Render r w n =
     (case walkHelper r w n None of
        Inl p \<Rightarrow> Inl p
      | Inr (r', w', status, err) \<Rightarrow>
          if err \<noteq> None then Inr (r', w', err) else Inr (r', w', Flush w'))"

text \<open>
  \<^verbatim>\<open>NewRenderer(options...).Render(w, source, n)\<close>, the first call of a new renderer,
  into an empty sink: the bytes the sink holds at the end, and the error returned.
\<close>

definition Render :: "Config \<Rightarrow> nat option \<Rightarrow> node \<Rightarrow> panic + (string \<times> error option)" where
  "Render c capacity n =
     (case renderer_Render (NewNodeRenderer c)
             \<lparr>out = [], room = capacity, failure = None\<rparr> n of
        Inl p \<Rightarrow> Inl p
      | Inr (r, w, err) \<Rightarrow> Inr (out w, err))"

text \<open>
  Modelled from the spec: the depth-first traversal that calls, for every node, the
  renderer on entry before descending into the children and on exit after all the
  children have been visited.  It is the traversal to compare the walk with: it
  never stops early, the status and the error that a renderer returns are not looked
  at.
\<close>

fun visitAll :: "Renderer \<Rightarrow> BufWriter \<Rightarrow> node \<Rightarrow> node option \<Rightarrow> panic + (Renderer \<times> BufWriter)"
  and visitAllChildren :: "Renderer \<Rightarrow> BufWriter \<Rightarrow> node list \<Rightarrow> panic + (Renderer \<times> BufWriter)" where
  "visitAll r w (Node k cs) nxt =
     (case nodeRendererFunc r w (Node k cs) nxt True of
        Inl p \<Rightarrow> Inl p
      | Inr (r1, w1, _, _) \<Rightarrow>
          (case visitAllChildren r1 w1 cs of
             Inl p \<Rightarrow> Inl p
           | Inr (r2, w2) \<Rightarrow>
               (case nodeRendererFunc r2 w2 (Node k cs) nxt False of
                  Inl p \<Rightarrow> Inl p
                | Inr (r3, w3, _, _) \<Rightarrow> Inr (r3, w3))))"
| "visitAllChildren r w [] = Inr (r, w)"
| "visitAllChildren r w (c # cs) =
     (case visitAll r w c (case cs of [] \<Rightarrow> None | c' # _ \<Rightarrow> Some c') of
        Inl p \<Rightarrow> Inl p
      | Inr (r1, w1) \<Rightarrow> visitAllChildren r1 w1 cs)"

section \<open>Predicates on nodes and states\<close>


text \<open>
  The recorded length is within the recorded bytes, as after every write: the test
  of \<open>renderDocument\<close> then reads a byte that is there.
\<close>

definition lenOK :: "defaultWriter \<Rightarrow> bool" where
  "lenOK d = (lastWriteLen d \<le> length (lastWriteBytes d))"



text \<open>
  What every step from \<open>(r, w)\<close> to \<open>(r', w')\<close> keeps: a sink that accepts every
  write still does and has the error it had; a recorded length within the recorded
  bytes stays so; and an error that the sink has kept is not cleared.
\<close>

definition kept :: "Renderer \<Rightarrow> BufWriter \<Rightarrow> Renderer \<Rightarrow> BufWriter \<Rightarrow> bool" where
  "kept r w r' w' =
     ((room w = None \<longrightarrow> room w' = None \<and> failure w' = failure w)
      \<and> (lenOK (writer r) \<longrightarrow> lenOK (writer r'))
      \<and> (failure w \<noteq> None \<longrightarrow> failure w' \<noteq> None))"

text \<open>
  Two runs side by side, to compare a sink that accepts \<open>C\<close> bytes in all (the state
  \<open>(rL, wL)\<close>) with a sink that accepts every write (the state \<open>(rU, wU)\<close>).  The
  renderers have the same configuration.  As long as no write has failed, the states
  are the same but for the room left, the output and the room making up \<open>C\<close> bytes.
  Once a write has failed, the limited sink accepts nothing more and holds the first
  \<open>C\<close> bytes of the other's output, which is longer.
\<close>

definition sameConfig :: "Renderer \<Rightarrow> Renderer \<Rightarrow> bool" where
  "sameConfig r r' =
     (HeadingStyle r' = HeadingStyle r \<and> ThematicBreakStyle r' = ThematicBreakStyle r
      \<and> ThematicBreakLength r' = ThematicBreakLength r \<and> IndentStyle r' = IndentStyle r)"

definition sim :: "nat \<Rightarrow> Renderer \<Rightarrow> BufWriter \<Rightarrow> Renderer \<Rightarrow> BufWriter \<Rightarrow> bool" where
  "sim C rL wL rU wU =
     (room wU = None \<and> failure wU = None \<and> sameConfig rL rU
      \<and> lenOK (writer rL) \<and> lenOK (writer rU)
      \<and> (if failure wL = None
          then rL = rU \<and> out wL = out wU
               \<and> (case room wL of None \<Rightarrow> False | Some j \<Rightarrow> length (out wL) + j = C)
          else room wL = Some 0 \<and> C < length (out wU) \<and> out wL = take C (out wU)))"

definition simP :: "nat \<Rightarrow> Renderer \<times> BufWriter \<Rightarrow> Renderer \<times> BufWriter \<Rightarrow> bool" where
  "simP C sL sU = sim C (fst sL) (snd sL) (fst sU) (snd sU)"

text \<open>Two outcomes side by side: the same panic, or two states side by side.\<close>

definition simO :: "nat \<Rightarrow> outcome \<Rightarrow> outcome \<Rightarrow> bool" where
  "simO C oL oU =
     (case oL of
        Inl p \<Rightarrow> oU = Inl p
      | Inr (rL, wL, _, _) \<Rightarrow>
          (case oU of Inl _ \<Rightarrow> False | Inr (rU, wU, _, _) \<Rightarrow> sim C rL wL rU wU))"

section \<open>Concrete inputs\<close>

text \<open>Small trees, a configuration and an empty sink for evaluating the renderers.\<close>

definition exampleConfig :: "HeadingStyle \<Rightarrow> Config" where
  "exampleConfig hs =
     \<lparr>HeadingStyle = hs, ThematicBreakStyle = 0, ThematicBreakLength = 3,
      IndentStyle = ''    ''\<rparr>"

definition emptySink :: "nat option \<Rightarrow> BufWriter" where
  "emptySink capacity = \<lparr>out = [], room = capacity, failure = None\<rparr>"

definition textNode :: "string \<Rightarrow> node" where
  "textNode s = Node (KindText s False) []"

definition paragraphNode :: "string \<Rightarrow> node" where
  "paragraphNode s = Node KindParagraph [textNode s]"

definition headingNode :: "int \<Rightarrow> string list \<Rightarrow> node list \<Rightarrow> node" where
  "headingNode lvl ls cs = Node (KindHeading \<lparr>Level = lvl, Lines = ls\<rparr>) cs"

definition documentNode :: "node list \<Rightarrow> node" where
  "documentNode cs = Node KindDocument cs"

section \<open>The dispatch table\<close>

lemma maxKind_eq: "maxKind = 12"
  by (simp add: maxKind_def RegisterFuncs_def)

text \<open>The table has thirteen entries, eight of them renderers.\<close>

lemma nodeRendererFuncs_eq:
  "nodeRendererFuncs =
     [None, Some renderDocument, None, Some renderParagraph, Some renderHeading,
      Some renderThematicBreak, Some renderCodeBlock, Some renderFencedCodeBlock,
      None, None, None, Some renderHTMLBlock, Some renderText]"
  by (simp add: nodeRendererFuncs_def maxKind_eq nodeRendererFuncsTmp_def RegisterFuncs_def
      upt_rec)

text \<open>
  So the eight kinds registered go to their renderers; the four block kinds without
  a renderer, numbered below \<^verbatim>\<open>ast.KindText\<close>, are passed through; and for every other
  kind, numbered above it, the lookup panics.
\<close>

lemma nodeRendererFunc_eq:
  "nodeRendererFunc r w node nxt entering =
     (case NodeKindOf (Kind node) of
        ast_KindDocument \<Rightarrow> renderDocument r w node nxt entering
      | ast_KindHeading \<Rightarrow> renderHeading r w node nxt entering
      | ast_KindCodeBlock \<Rightarrow> renderCodeBlock r w node nxt entering
      | ast_KindParagraph \<Rightarrow> renderParagraph r w node nxt entering
      | ast_KindThematicBreak \<Rightarrow> renderThematicBreak r w node nxt entering
      | ast_KindFencedCodeBlock \<Rightarrow> renderFencedCodeBlock r w node nxt entering
      | ast_KindHTMLBlock \<Rightarrow> renderHTMLBlock r w node nxt entering
      | ast_KindText \<Rightarrow> renderText r w node nxt entering
      | ast_KindTextBlock \<Rightarrow> continue (r, w)
      | ast_KindBlockquote \<Rightarrow> continue (r, w)
      | ast_KindList \<Rightarrow> continue (r, w)
      | ast_KindListItem \<Rightarrow> continue (r, w)
      | _ \<Rightarrow> Inl IndexOutOfRange)"
  by (cases "NodeKindOf (Kind node)")
     (simp_all add: nodeRendererFunc_def nodeRendererFuncs_eq index_def)

text \<open>What holds of every renderer, of passing through and of the panic holds of the dispatch.\<close>

lemma nodeRendererFunc_cases:
  assumes "P (renderDocument r w n nxt e)" and "P (renderHeading r w n nxt e)"
    and "P (renderCodeBlock r w n nxt e)" and "P (renderParagraph r w n nxt e)"
    and "P (renderThematicBreak r w n nxt e)" and "P (renderFencedCodeBlock r w n nxt e)"
    and "P (renderHTMLBlock r w n nxt e)" and "P (renderText r w n nxt e)"
    and "P (continue (r, w))" and "P (Inl IndexOutOfRange)"
  shows "P (nodeRendererFunc r w n nxt e)"
  using assms by (cases "NodeKindOf (Kind n)") (simp_all add: nodeRendererFunc_eq)

text \<open>An emphasis, a kind numbered above \<^verbatim>\<open>ast.KindText\<close>: the lookup panics.\<close>

lemma emphasis_panics:
  "nodeRendererFunc r w (Node (KindOther ast_KindEmphasis) cs) nxt entering = Inl IndexOutOfRange"
  by (simp add: nodeRendererFunc_eq)

text \<open>A list, a block kind without a renderer: passed through.\<close>

lemma list_passes:
  "nodeRendererFunc r w (Node (KindOther ast_KindList) cs) nxt entering
     = Inr (r, w, WalkContinue, None)"
  by (simp add: nodeRendererFunc_eq continue_def)

section \<open>A sink that accepts every write\<close>

lemma bufWrite_unlimited:
  "room w = None \<Longrightarrow> bufWrite w p = (w\<lparr>out := out w @ p\<rparr>, length p, None)"
  by (simp add: bufWrite_def)

lemma Fprint_unlimited:
  "room w = None \<Longrightarrow> Fprint w s = w\<lparr>out := out w @ s\<rparr>"
  by (simp add: Fprint_def bufWrite_unlimited)

lemma writer_Write_unlimited:
  "room w = None \<Longrightarrow>
   writer_Write r w bs =
     (r\<lparr>writer := (writer r)\<lparr>lastWriteBytes := bs, lastWriteLen := length bs\<rparr>\<rparr>,
      w\<lparr>out := out w @ bs\<rparr>)"
  by (simp add: writer_Write_def Write_def bufWrite_unlimited)

lemma Repeat_char:
  "0 \<le> n \<Longrightarrow> Repeat [c] n = Inr (replicate (nat n) c)"
  by (simp add: Repeat_def)

section \<open>Thematic breaks\<close>

lemma glyph_index:
  assumes "0 \<le> i" and "i < 3"
  shows "index [''-'', ''*'', ''_''] i = Inr [''-*_'' ! nat i]"
proof -
  from assms have "i = 0 \<or> i = 1 \<or> i = 2" by arith
  then show ?thesis by (auto simp: index_def)
qed

text \<open>
  C7.  On entry a thematic break is one write of exactly \<open>max L 3\<close> copies of the
  glyph that the style index selects among hyphen, asterisk and underscore, where
  \<open>L\<close> is the configured length: the call returns \<open>WalkContinue\<close> and the output of a
  sink that accepts the write has grown by exactly these bytes.
\<close>

theorem thematic_break_length:
  assumes "0 \<le> ThematicBreakStyle r" and "ThematicBreakStyle r < 3" and "room w = None"
  shows "\<exists>r' w'. renderThematicBreak r w node nxt True = Inr (r', w', WalkContinue, None)
           \<and> out w' = out w @ replicate (nat (max (ThematicBreakLength r) 3))
                                (''-*_'' ! nat (ThematicBreakStyle r))"
  using assms
  by (simp add: renderThematicBreak_def glyph_index ThematicBreakLengthMinimum_def
      Repeat_char writer_Write_unlimited continue_def Let_def max_def)

text \<open>A configured length of 1 gives three glyphs, a length of 10 gives ten.\<close>

theorem thematic_break_length_witness:
  "(\<exists>r' w'. renderThematicBreak
        (NewNodeRenderer ((exampleConfig HeadingStyleATX)\<lparr>ThematicBreakLength := 1\<rparr>))
        (emptySink None) (Node KindThematicBreak []) None True
          = Inr (r', w', WalkContinue, None) \<and> out w' = ''---'')
 \<and> (\<exists>r' w'. renderThematicBreak
        (NewNodeRenderer ((exampleConfig HeadingStyleATX)
           \<lparr>ThematicBreakStyle := 1, ThematicBreakLength := 10\<rparr>))
        (emptySink None) (Node KindThematicBreak []) None True
          = Inr (r', w', WalkContinue, None) \<and> out w' = ''**********'')"
  using
    thematic_break_length [of
      "NewNodeRenderer ((exampleConfig HeadingStyleATX)\<lparr>ThematicBreakLength := 1\<rparr>)"
      "emptySink None" "Node KindThematicBreak []" None]
    thematic_break_length [of
      "NewNodeRenderer ((exampleConfig HeadingStyleATX)
         \<lparr>ThematicBreakStyle := 1, ThematicBreakLength := 10\<rparr>)"
      "emptySink None" "Node KindThematicBreak []" None]
  by (simp add: NewNodeRenderer_def exampleConfig_def emptySink_def eval_nat_numeral)

section \<open>Headings\<close>

subsection \<open>Choice of the form\<close>

text \<open>
  C1.  The form of a heading is resolved in this order, for every configured style:
  a heading without children or of a level above 2 is rendered by the ATX renderer;
  otherwise a heading whose line span has more than one line is rendered by the
  Setext renderer; otherwise the configured style decides, Setext for the two Setext
  styles and ATX for the others.
\<close>

theorem heading_form_resolution:
  assumes "Kind node = KindHeading n"
  shows "(\<not> HasChildren node \<or> Level n > 2 \<longrightarrow>
            renderHeading r w node nxt entering = renderATXHeading r w n node nxt entering)
       \<and> (HasChildren node \<and> Level n \<le> 2 \<and> length (Lines n) > 1 \<longrightarrow>
            renderHeading r w node nxt entering = renderSetextHeading r w n node nxt entering)
       \<and> (HasChildren node \<and> Level n \<le> 2 \<and> length (Lines n) \<le> 1 \<longrightarrow>
            renderHeading r w node nxt entering =
              (if IsSetext (HeadingStyle r) then renderSetextHeading r w n node nxt entering
               else renderATXHeading r w n node nxt entering))"
  using assms by (auto simp: renderHeading_def)

text \<open>
  A level-3 heading under the Setext style is ATX; a two-line level-1 heading under
  the ATX style is Setext; a one-line level-1 heading follows the style.
\<close>

theorem heading_form_resolution_witness:
  "renderHeading (NewNodeRenderer (exampleConfig HeadingStyleSetext)) (emptySink None)
      (headingNode 3 [''Sub''] [textNode ''Sub'']) None True
     = renderATXHeading (NewNodeRenderer (exampleConfig HeadingStyleSetext)) (emptySink None)
         \<lparr>Level = 3, Lines = [''Sub'']\<rparr> (headingNode 3 [''Sub''] [textNode ''Sub'']) None True
   \<and> renderHeading (NewNodeRenderer (exampleConfig HeadingStyleATX)) (emptySink None)
      (headingNode 1 [''Foo'', ''Bar''] [textNode ''Foo Bar'']) None False
     = renderSetextHeading (NewNodeRenderer (exampleConfig HeadingStyleATX)) (emptySink None)
         \<lparr>Level = 1, Lines = [''Foo'', ''Bar'']\<rparr>
         (headingNode 1 [''Foo'', ''Bar''] [textNode ''Foo Bar'']) None False
   \<and> renderHeading (NewNodeRenderer (exampleConfig HeadingStyleATX)) (emptySink None)
      (headingNode 1 [''Title''] [textNode ''Title'']) None True
     = renderATXHeading (NewNodeRenderer (exampleConfig HeadingStyleATX)) (emptySink None)
         \<lparr>Level = 1, Lines = [''Title'']\<rparr> (headingNode 1 [''Title''] [textNode ''Title'']) None True"
  using
    heading_form_resolution [of "headingNode 3 [''Sub''] [textNode ''Sub'']"
      "\<lparr>Level = 3, Lines = [''Sub'']\<rparr>" "NewNodeRenderer (exampleConfig HeadingStyleSetext)"
      "emptySink None" None True]
    heading_form_resolution [of "headingNode 1 [''Foo'', ''Bar''] [textNode ''Foo Bar'']"
      "\<lparr>Level = 1, Lines = [''Foo'', ''Bar'']\<rparr>" "NewNodeRenderer (exampleConfig HeadingStyleATX)"
      "emptySink None" None False]
    heading_form_resolution [of "headingNode 1 [''Title''] [textNode ''Title'']"
      "\<lparr>Level = 1, Lines = [''Title'']\<rparr>" "NewNodeRenderer (exampleConfig HeadingStyleATX)"
      "emptySink None" None True]
  by (simp add: headingNode_def HasChildren_def NewNodeRenderer_def exampleConfig_def)

subsection \<open>The ATX form\<close>

text \<open>
  C5.  The ATX renderer, for a heading of level at least 0 and a sink that accepts
  every write.  On entry the output grows by exactly level-many \<open>#\<close>, followed by
  one space if and only if the heading has children; the renderer's writer is
  untouched.  On exit the output grows by a space and the same run of \<open>#\<close> if the
  style is ATX-surround and by nothing otherwise, and then the block separator is
  invoked.
\<close>

theorem atx_heading_emits:
  assumes "0 \<le> Level h" and "room w = None"
  shows "renderATXHeading r w h node nxt True =
           Inr (r, w\<lparr>out := out w @ replicate (nat (Level h)) (CHR ''#'')
                                  @ (if HasChildren node then '' '' else [])\<rparr>,
                WalkContinue, None)
       \<and> renderATXHeading r w h node nxt False =
           continue (renderBlockSeparator r
             (w\<lparr>out := out w @ (if HeadingStyle r = HeadingStyleATXSurround
                                 then '' '' @ replicate (nat (Level h)) (CHR ''#'')
                                 else [])\<rparr>) nxt)"
  using assms
  by (simp add: renderATXHeading_def Repeat_char Fprint_unlimited continue_def Let_def)

theorem atx_heading_emits_witness:
  "renderATXHeading (NewNodeRenderer (exampleConfig HeadingStyleATXSurround)) (emptySink None)
      \<lparr>Level = 3, Lines = [''Sub'']\<rparr> (headingNode 3 [''Sub''] [textNode ''Sub'']) None True
     = Inr (NewNodeRenderer (exampleConfig HeadingStyleATXSurround),
            \<lparr>out = ''### '', room = None, failure = None\<rparr>, WalkContinue, None)
   \<and> renderATXHeading (NewNodeRenderer (exampleConfig HeadingStyleATXSurround))
      \<lparr>out = ''### Sub'', room = None, failure = None\<rparr>
      \<lparr>Level = 3, Lines = [''Sub'']\<rparr> (headingNode 3 [''Sub''] [textNode ''Sub'']) None False
     = Inr (NewNodeRenderer (exampleConfig HeadingStyleATXSurround),
            \<lparr>out = ''### Sub ###'', room = None, failure = None\<rparr>, WalkContinue, None)"
  using
    atx_heading_emits [of "\<lparr>Level = 3, Lines = [''Sub'']\<rparr>" "emptySink None"
      "NewNodeRenderer (exampleConfig HeadingStyleATXSurround)"
      "headingNode 3 [''Sub''] [textNode ''Sub'']" None]
    atx_heading_emits [of "\<lparr>Level = 3, Lines = [''Sub'']\<rparr>" "\<lparr>out = ''### Sub'', room = None, failure = None\<rparr>"
      "NewNodeRenderer (exampleConfig HeadingStyleATXSurround)"
      "headingNode 3 [''Sub''] [textNode ''Sub'']" None]
  by (simp add: headingNode_def HasChildren_def NewNodeRenderer_def exampleConfig_def
      emptySink_def renderBlockSeparator_def continue_def eval_nat_numeral)

text \<open>The scenario of the spec: a level-3 heading with the text \<open>Sub\<close>.\<close>

lemma atx_sub_scenario:
  "Render (exampleConfig HeadingStyleSetext) None
     (documentNode [headingNode 3 [''Sub''] [textNode ''Sub'']])
   = Inr (''### Sub'' @ [NL], None)"
  by code_simp

subsection \<open>The Setext form\<close>

lemma Max_insert_max:
  "finite S \<Longrightarrow> Max (insert (max a b) S) = Max (insert (a::nat) (insert b S))"
  by (cases "S = {}") (simp_all add: max.assoc)

lemma foldl_underlineWidth:
  "foldl (\<lambda>underlineWidth line.
            let lineWidth = int (length line)
            in if lineWidth > underlineWidth then lineWidth else underlineWidth) (int a) ls
   = int (Max (insert a (length ` set ls)))"
proof (induction ls arbitrary: a)
  case Nil
  show ?case by simp
next
  case (Cons x xs)
  have step: "(let lineWidth = int (length x)
               in if lineWidth > int a then lineWidth else int a) = int (max a (length x))"
    by (simp add: Let_def max_def)
  show ?case
    unfolding foldl_Cons step Cons.IH
    by (simp add: Max_insert_max)
qed

lemma underlineWidthOf_Max:
  "underlineWidthOf ls = int (Max (insert 3 (length ` set ls)))"
  using foldl_underlineWidth [of 3 ls] by (simp add: underlineWidthOf_def)

lemma underline_index:
  "Level h = 1 \<or> Level h = 2 \<Longrightarrow>
   index [[], ''='', ''-''] (Level h) = Inr [if Level h = 1 then CHR ''='' else CHR ''-'']"
  by (auto simp: index_def)

lemma setext_exit:
  assumes "Level h = 1 \<or> Level h = 2" and "room w = None"
  shows "renderSetextHeading r w h node nxt False =
           continue (renderBlockSeparator r
             (w\<lparr>out := out w @ NL #
                 replicate (if HeadingStyle r = HeadingStyleFullWidthSetext
                            then Max (insert 3 (length ` set (Lines h))) else 3)
                           (if Level h = 1 then CHR ''='' else CHR ''-'')\<rparr>) nxt)"
  using assms
  by (simp add: renderSetextHeading_def underline_index underlineWidthOf_Max Repeat_char
      Fprint_unlimited Let_def)

lemma setext_title_scenario:
  "Render \<lparr>HeadingStyle = HeadingStyleSetext, ThematicBreakStyle = tbs,
           ThematicBreakLength = tbl, IndentStyle = ind\<rparr> None
     (documentNode [headingNode 1 [''Title''] [textNode ''Title'']])
   = Inr (''Title'' @ [NL] @ ''==='' @ [NL], None)"
  by (simp add: Render_def renderer_Render_def Flush_def NewNodeRenderer_def
      nodeRendererFunc_eq renderDocument_def
      renderHeading_def renderSetextHeading_def renderText_def HasChildren_def continue_def
      renderBlockSeparator_def writer_Write_def Write_def bufWrite_def Fprint_def
      LastWriteBytes_def index_def Repeat_def numeral_3_eq_3
      documentNode_def headingNode_def textNode_def)

text \<open>
  C6.  The Setext renderer, for a heading of level 1 or 2 and a sink that accepts
  every write.  On entry nothing is emitted.  On exit the output grows by a newline
  and an underline of \<open>=\<close> for level 1 and \<open>-\<close> for level 2, and then the block
  separator is invoked; the underline has exactly 3 characters unless the style is
  the full-width Setext style, and then as many as the longest of the heading's
  lines has bytes, but never fewer than 3.  In particular a document holding one
  level-1 heading with the text \<open>Title\<close> renders, under the Setext style without
  full width, as \<open>Title\<close>, a newline, \<open>===\<close> and a newline.
\<close>

theorem setext_heading_emits:
  assumes "Level h = 1 \<or> Level h = 2" and "room w = None"
  shows "renderSetextHeading r w h node nxt True = Inr (r, w, WalkContinue, None)
       \<and> renderSetextHeading r w h node nxt False =
           continue (renderBlockSeparator r
             (w\<lparr>out := out w @ NL #
                 replicate (if HeadingStyle r = HeadingStyleFullWidthSetext
                            then Max (insert 3 (length ` set (Lines h))) else 3)
                           (if Level h = 1 then CHR ''='' else CHR ''-'')\<rparr>) nxt)
       \<and> Render \<lparr>HeadingStyle = HeadingStyleSetext, ThematicBreakStyle = tbs,
                 ThematicBreakLength = tbl, IndentStyle = ind\<rparr> None
             (documentNode [headingNode 1 [''Title''] [textNode ''Title'']])
           = Inr (''Title'' @ [NL] @ ''==='' @ [NL], None)"
  using setext_exit [OF assms] setext_title_scenario
  by (simp add: renderSetextHeading_def continue_def)

text \<open>
  A level-2 heading with the lines \<open>Foo\<close> and \<open>Barbaz\<close> under the full-width style is
  underlined with six hyphens; under the plain Setext style, with three.
\<close>

theorem setext_heading_emits_witness:
  "renderSetextHeading (NewNodeRenderer (exampleConfig HeadingStyleFullWidthSetext))
      \<lparr>out = ''Foo Barbaz'', room = None, failure = None\<rparr> \<lparr>Level = 2, Lines = [''Foo'', ''Barbaz'']\<rparr>
      (headingNode 2 [''Foo'', ''Barbaz''] [textNode ''Foo Barbaz'']) None False
     = Inr (NewNodeRenderer (exampleConfig HeadingStyleFullWidthSetext),
            \<lparr>out = ''Foo Barbaz'' @ [NL] @ ''------'', room = None, failure = None\<rparr>, WalkContinue, None)
   \<and> renderSetextHeading (NewNodeRenderer (exampleConfig HeadingStyleSetext))
      \<lparr>out = ''Foo Barbaz'', room = None, failure = None\<rparr> \<lparr>Level = 2, Lines = [''Foo'', ''Barbaz'']\<rparr>
      (headingNode 2 [''Foo'', ''Barbaz''] [textNode ''Foo Barbaz'']) None False
     = Inr (NewNodeRenderer (exampleConfig HeadingStyleSetext),
            \<lparr>out = ''Foo Barbaz'' @ [NL] @ ''---'', room = None, failure = None\<rparr>, WalkContinue, None)"
  using
    setext_heading_emits [of "\<lparr>Level = 2, Lines = [''Foo'', ''Barbaz'']\<rparr>"
      "\<lparr>out = ''Foo Barbaz'', room = None, failure = None\<rparr>"
      "NewNodeRenderer (exampleConfig HeadingStyleFullWidthSetext)"
      "headingNode 2 [''Foo'', ''Barbaz''] [textNode ''Foo Barbaz'']" None]
    setext_heading_emits [of "\<lparr>Level = 2, Lines = [''Foo'', ''Barbaz'']\<rparr>"
      "\<lparr>out = ''Foo Barbaz'', room = None, failure = None\<rparr>"
      "NewNodeRenderer (exampleConfig HeadingStyleSetext)"
      "headingNode 2 [''Foo'', ''Barbaz''] [textNode ''Foo Barbaz'']" None]
  by (simp add: NewNodeRenderer_def exampleConfig_def renderBlockSeparator_def continue_def
      eval_nat_numeral)

subsection \<open>The underline lookup\<close>

text \<open>Called on its own with a level above 2, the Setext renderer's lookup panics.\<close>

lemma setext_level3_panics:
  "renderSetextHeading r w \<lparr>Level = 3, Lines = ls\<rparr> node nxt False = Inl IndexOutOfRange"
  by (simp add: renderSetextHeading_def index_def)

text \<open>
  C10.  Through \<open>renderHeading\<close> the lookup of the underline character in the
  three-element array is in bounds: \<open>renderHeading\<close> passes a heading to the Setext
  renderer only when it has children and its level is at most 2, so for a heading
  of level at least 1 the call never ends in the index panic.
\<close>

theorem setext_index_in_bounds:
  assumes "Kind node = KindHeading h" and "1 \<le> Level h"
  shows "renderHeading r w node nxt entering \<noteq> Inl IndexOutOfRange"
proof -
  have idx: "Level h \<le> 2 \<Longrightarrow> \<exists>c. index [[], ''='', ''-''] (Level h) = Inr c"
    using assms(2) by (simp add: index_def)
  show ?thesis
    using assms idx
    by (auto simp: renderHeading_def renderATXHeading_def renderSetextHeading_def
        Repeat_def continue_def Let_def split: prod.splits if_splits)
qed

theorem setext_index_in_bounds_witness:
  "Kind (headingNode 2 [''Title''] [textNode ''Title'']) = KindHeading \<lparr>Level = 2, Lines = [''Title'']\<rparr>
   \<and> renderHeading (NewNodeRenderer (exampleConfig HeadingStyleSetext))
        \<lparr>out = ''Title'', room = None, failure = None\<rparr>
        (headingNode 2 [''Title''] [textNode ''Title'']) None False \<noteq> Inl IndexOutOfRange"
  using setext_index_in_bounds [of "headingNode 2 [''Title''] [textNode ''Title'']"
      "\<lparr>Level = 2, Lines = [''Title'']\<rparr>" "NewNodeRenderer (exampleConfig HeadingStyleSetext)"
      "\<lparr>out = ''Title'', room = None, failure = None\<rparr>" None False]
  by (simp add: headingNode_def)

section \<open>Every renderer continues\<close>

lemma continue_eq:
  "continue s = Inr (r', w', st, err) \<longleftrightarrow> s = (r', w') \<and> st = WalkContinue \<and> err = None"
  by (cases s) (auto simp: continue_def)

lemma continue_not_isl [simp]: "\<not> isl (continue s)"
  by (cases s) (simp add: continue_def)

lemma renderDocument_continues:
  "renderDocument r w n nxt e = Inr (r', w', st, err) \<Longrightarrow> st = WalkContinue \<and> err = None"
  by (auto simp: renderDocument_def continue_eq LastWriteBytes_def split: if_splits sum.splits)

lemma renderATXHeading_continues:
  "renderATXHeading r w h n nxt e = Inr (r', w', st, err) \<Longrightarrow> st = WalkContinue \<and> err = None"
  by (auto simp: renderATXHeading_def continue_eq Let_def split: if_splits sum.splits)

lemma renderSetextHeading_continues:
  "renderSetextHeading r w h n nxt e = Inr (r', w', st, err) \<Longrightarrow> st = WalkContinue \<and> err = None"
  by (auto simp: renderSetextHeading_def continue_eq Let_def split: if_splits sum.splits)

lemma renderHeading_continues:
  "renderHeading r w n nxt e = Inr (r', w', st, err) \<Longrightarrow> st = WalkContinue \<and> err = None"
  by (auto simp: renderHeading_def split: kind.splits if_splits
      dest: renderATXHeading_continues renderSetextHeading_continues)

lemma renderParagraph_continues:
  "renderParagraph r w n nxt e = Inr (r', w', st, err) \<Longrightarrow> st = WalkContinue \<and> err = None"
  by (auto simp: renderParagraph_def continue_eq split: if_splits)

lemma renderText_continues:
  "renderText r w n nxt e = Inr (r', w', st, err) \<Longrightarrow> st = WalkContinue \<and> err = None"
  by (auto simp: renderText_def continue_eq split: kind.splits if_splits prod.splits)

lemma renderThematicBreak_continues:
  "renderThematicBreak r w n nxt e = Inr (r', w', st, err) \<Longrightarrow> st = WalkContinue \<and> err = None"
  by (auto simp: renderThematicBreak_def continue_eq Let_def split: if_splits sum.splits)

lemma renderCodeBlock_continues:
  "renderCodeBlock r w n nxt e = Inr (r', w', st, err) \<Longrightarrow> st = WalkContinue \<and> err = None"
  by (auto simp: renderCodeBlock_def continue_eq split: kind.splits if_splits)

lemma renderFencedCodeBlock_continues:
  "renderFencedCodeBlock r w n nxt e = Inr (r', w', st, err) \<Longrightarrow> st = WalkContinue \<and> err = None"
  by (auto simp: renderFencedCodeBlock_def continue_eq split: kind.splits if_splits prod.splits)

lemma renderHTMLBlock_continues:
  "renderHTMLBlock r w n nxt e = Inr (r', w', st, err) \<Longrightarrow> st = WalkContinue \<and> err = None"
  by (auto simp: renderHTMLBlock_def continue_eq split: kind.splits if_splits prod.splits)

lemma handler_continue:
  assumes "nodeRendererFunc r w n nxt entering = Inr (r', w', st, err)"
  shows "st = WalkContinue \<and> err = None"
proof -
  have "nodeRendererFunc r w n nxt entering = Inr (r', w', st, err) \<longrightarrow>
          st = WalkContinue \<and> err = None"
    by (rule nodeRendererFunc_cases
          [where P = "\<lambda>x. x = Inr (r', w', st, err) \<longrightarrow> st = WalkContinue \<and> err = None"])
       (auto simp: continue_eq
         dest: renderDocument_continues renderHeading_continues renderParagraph_continues
           renderText_continues renderThematicBreak_continues renderCodeBlock_continues
           renderFencedCodeBlock_continues renderHTMLBlock_continues)
  with assms show ?thesis by simp
qed

lemma handler_cases:
  obtains (panics) p where "nodeRendererFunc r w n nxt entering = Inl p"
  | (returns) r' w' where "nodeRendererFunc r w n nxt entering = Inr (r', w', WalkContinue, None)"
proof (cases "nodeRendererFunc r w n nxt entering")
  case (Inl p)
  then show ?thesis by (rule panics)
next
  case (Inr x)
  obtain r' w' st err where x: "x = (r', w', st, err)" by (cases x) auto
  from Inr x handler_continue [of r w n nxt entering r' w' st err]
  have "nodeRendererFunc r w n nxt entering = Inr (r', w', WalkContinue, None)" by simp
  then show ?thesis by (rule returns)
qed

text \<open>So the walk never stops early: it panics or returns \<open>WalkContinue\<close> and no error.\<close>

lemma walk_continue:
  "(\<forall>r' w' st err. walkHelper r w n nxt = Inr (r', w', st, err) \<longrightarrow> st = WalkContinue \<and> err = None)"
  "(\<forall>r' w' st err. walkChildren r w ns = Inr (r', w', st, err) \<longrightarrow> st = WalkContinue \<and> err = None)"
proof (induction r w n nxt and r w ns rule: walkHelper_walkChildren.induct)
  case (1 r w k cs nxt)
  show ?case
  proof (cases rule: handler_cases [of r w "Node k cs" nxt True])
    case (panics p)
    then show ?thesis by simp
  next
    case (returns r1 w1)
    note entry = this
    show ?thesis
    proof (cases "walkChildren r1 w1 cs")
      case (Inl p)
      with entry show ?thesis by simp
    next
      case (Inr x)
      obtain r2 w2 st2 err2 where x: "x = (r2, w2, st2, err2)" by (cases x) auto
      from 1 [OF entry refl refl refl] Inr x
      have c: "st2 = WalkContinue" "err2 = None" by auto
      show ?thesis
        by (cases rule: handler_cases [of r2 w2 "Node k cs" nxt False])
           (simp_all add: entry Inr x c)
    qed
  qed
next
  case (2 r w)
  show ?case by simp
next
  case (3 r w c cs)
  show ?case
  proof (cases "walkHelper r w c (case cs of [] \<Rightarrow> None | c' # _ \<Rightarrow> Some c')")
    case (Inl p)
    then show ?thesis by simp
  next
    case (Inr x)
    obtain r1 w1 st1 err1 where x: "x = (r1, w1, st1, err1)" by (cases x) auto
    from 3(1) Inr x have c: "st1 = WalkContinue" "err1 = None" by auto
    from 3(2) [OF Inr [unfolded x] refl refl refl] c
    show ?thesis by (simp add: Inr x c)
  qed
qed

text \<open>The walk without the tests that never fire.\<close>

lemma walkHelper_eq:
  "walkHelper r w (Node k cs) nxt =
     (case nodeRendererFunc r w (Node k cs) nxt True of
        Inl p \<Rightarrow> Inl p
      | Inr (r1, w1, _, _) \<Rightarrow>
          (case walkChildren r1 w1 cs of
             Inl p \<Rightarrow> Inl p
           | Inr (r2, w2, _, _) \<Rightarrow> nodeRendererFunc r2 w2 (Node k cs) nxt False))"
proof (cases rule: handler_cases [of r w "Node k cs" nxt True])
  case (panics p)
  then show ?thesis by simp
next
  case (returns r1 w1)
  note entry = this
  show ?thesis
  proof (cases "walkChildren r1 w1 cs")
    case (Inl p)
    with entry show ?thesis by simp
  next
    case (Inr x)
    obtain r2 w2 st2 err2 where x: "x = (r2, w2, st2, err2)" by (cases x) auto
    from walk_continue(2) [of r1 w1 cs] Inr x
    have c: "st2 = WalkContinue" "err2 = None" by auto
    show ?thesis
      by (cases rule: handler_cases [of r2 w2 "Node k cs" nxt False])
         (simp_all add: entry Inr x c)
  qed
qed

lemma walkChildren_Cons:
  "walkChildren r w (c # cs) =
     (case walkHelper r w c (case cs of [] \<Rightarrow> None | c' # _ \<Rightarrow> Some c') of
        Inl p \<Rightarrow> Inl p
      | Inr (r1, w1, _, _) \<Rightarrow> walkChildren r1 w1 cs)"
proof (cases "walkHelper r w c (case cs of [] \<Rightarrow> None | c' # _ \<Rightarrow> Some c')")
  case (Inl p)
  then show ?thesis by simp
next
  case (Inr x)
  obtain r1 w1 st1 err1 where x: "x = (r1, w1, st1, err1)" by (cases x) auto
  from walk_continue(1) [of r w c] Inr x have "st1 = WalkContinue" "err1 = None" by auto
  with Inr x show ?thesis by simp
qed

declare walkHelper.simps [simp del] walkChildren.simps(2) [simp del]

lemma walk_cases:
  obtains (panics) p where "walkHelper r w n nxt = Inl p"
  | (returns) r' w' where "walkHelper r w n nxt = Inr (r', w', WalkContinue, None)"
proof (cases "walkHelper r w n nxt")
  case (Inl p)
  then show ?thesis by (rule panics)
next
  case (Inr x)
  obtain r' w' st err where x: "x = (r', w', st, err)" by (cases x) auto
  from Inr x walk_continue(1) [of r w n nxt]
  have "walkHelper r w n nxt = Inr (r', w', WalkContinue, None)" by simp
  then show ?thesis by (rule returns)
qed

lemma walkChildren_cases:
  obtains (panics) p where "walkChildren r w ns = Inl p"
  | (returns) r' w' where "walkChildren r w ns = Inr (r', w', WalkContinue, None)"
proof (cases "walkChildren r w ns")
  case (Inl p)
  then show ?thesis by (rule panics)
next
  case (Inr x)
  obtain r' w' st err where x: "x = (r', w', st, err)" by (cases x) auto
  from Inr x walk_continue(2) [of r w ns]
  have "walkChildren r w ns = Inr (r', w', WalkContinue, None)" by simp
  then show ?thesis by (rule returns)
qed

subsection \<open>The walk visits every node\<close>

text \<open>The walk is the traversal that never stops early.\<close>

lemma walk_visitAll:
  "walkHelper r w n nxt =
     (case visitAll r w n nxt of
        Inl p \<Rightarrow> Inl p
      | Inr (r1, w1) \<Rightarrow> Inr (r1, w1, WalkContinue, None))"
  "walkChildren r w ns =
     (case visitAllChildren r w ns of
        Inl p \<Rightarrow> Inl p
      | Inr (r1, w1) \<Rightarrow> Inr (r1, w1, WalkContinue, None))"
proof (induction r w n nxt and r w ns rule: walkHelper_walkChildren.induct)
  case (1 r w k cs nxt)
  show ?case
  proof (cases rule: handler_cases [of r w "Node k cs" nxt True])
    case (panics p)
    then show ?thesis by (simp add: walkHelper_eq)
  next
    case (returns r1 w1)
    note entry = this
    from 1 [OF entry refl refl refl] have
      kids: "walkChildren r1 w1 cs =
               (case visitAllChildren r1 w1 cs of
                  Inl p \<Rightarrow> Inl p
                | Inr (r2, w2) \<Rightarrow> Inr (r2, w2, WalkContinue, None))"
      by simp
    show ?thesis
    proof (cases "visitAllChildren r1 w1 cs")
      case (Inl p)
      with entry kids show ?thesis by (simp add: walkHelper_eq)
    next
      case (Inr x)
      obtain r2 w2 where x: "x = (r2, w2)" by (cases x)
      show ?thesis
        by (cases rule: handler_cases [of r2 w2 "Node k cs" nxt False])
           (simp_all add: walkHelper_eq entry kids Inr x)
    qed
  qed
next
  case (2 r w)
  show ?case by simp
next
  case (3 r w c cs)
  let ?nxt = "case cs of [] \<Rightarrow> None | c' # _ \<Rightarrow> Some c'"
  from 3(1) have
    first: "walkHelper r w c ?nxt =
              (case visitAll r w c ?nxt of
                 Inl p \<Rightarrow> Inl p
               | Inr (r1, w1) \<Rightarrow> Inr (r1, w1, WalkContinue, None))" .
  show ?case
  proof (cases "visitAll r w c ?nxt")
    case (Inl p)
    with first show ?thesis by (simp add: walkChildren_Cons)
  next
    case (Inr x)
    obtain r1 w1 where x: "x = (r1, w1)" by (cases x)
    from first Inr x have w: "walkHelper r w c ?nxt = Inr (r1, w1, WalkContinue, None)"
      by simp
    from 3(2) [OF w refl refl refl] have
      "walkChildren r1 w1 cs =
         (case visitAllChildren r1 w1 cs of
            Inl p \<Rightarrow> Inl p
          | Inr (r2, w2) \<Rightarrow> Inr (r2, w2, WalkContinue, None))"
      by simp
    with w Inr x show ?thesis by (simp add: walkChildren_Cons)
  qed
qed

section \<open>What the renderers keep\<close>

lemma kept_refl: "kept r w r w"
  by (simp add: kept_def)

lemma kept_trans: "kept r w r1 w1 \<Longrightarrow> kept r1 w1 r2 w2 \<Longrightarrow> kept r w r2 w2"
  by (auto simp: kept_def)

subsection \<open>Writes\<close>

text \<open>
  A write leaves a sink that accepts every write as one, with the error it had; it
  does not clear an error that the sink has kept; and the number of bytes it reports
  is at most the number it was given.
\<close>

lemma bufWrite_keeps:
  "(room w = None \<longrightarrow>
      room (fst (bufWrite w p)) = None \<and> failure (fst (bufWrite w p)) = failure w)
   \<and> (failure w \<noteq> None \<longrightarrow> failure (fst (bufWrite w p)) \<noteq> None)
   \<and> fst (snd (bufWrite w p)) \<le> length p"
  by (auto simp: bufWrite_def split: option.splits)

text \<open>A direct write to the sink leaves the renderer alone.\<close>

lemma Fprint_kept: "kept r w r (Fprint w s)"
  using bufWrite_keeps [of w s] by (simp add: kept_def Fprint_def)

lemma writer_Write_kept:
  "writer_Write r w bs = (r', w') \<Longrightarrow> kept r w r' w'"
  using bufWrite_keeps [of w bs]
  by (auto simp: writer_Write_def Write_def kept_def lenOK_def split: prod.splits)


lemma renderBlockSeparator_None: "renderBlockSeparator r w None = (r, w)"
  by (simp add: renderBlockSeparator_def)

lemma renderBlockSeparator_Some: "renderBlockSeparator r w (Some b) = writer_Write r w [NL, NL]"
  by (simp add: renderBlockSeparator_def)

lemma renderBlockSeparator_kept:
  "renderBlockSeparator r w nxt = (r', w') \<Longrightarrow> kept r w r' w'"
  by (auto simp: renderBlockSeparator_def kept_refl writer_Write_kept split: if_splits)

subsection \<open>The loops over lines\<close>

lemma writeLines_Nil: "writeLines r w [] = (r, w)"
  by (simp add: writeLines_def)

lemma writeLines_Cons:
  "writeLines r w (l # ls) = (case writer_Write r w l of (r1, w1) \<Rightarrow> writeLines r1 w1 ls)"
  by (simp add: writeLines_def split: prod.splits)

lemma writeIndentedLines_Nil: "writeIndentedLines r w [] = (r, w)"
  by (simp add: writeIndentedLines_def)

lemma writeIndentedLines_Cons:
  "writeIndentedLines r w (l # ls) =
     (case writer_Write r w (IndentStyle r) of
        (r1, w1) \<Rightarrow> (case writer_Write r1 w1 l of (r2, w2) \<Rightarrow> writeIndentedLines r2 w2 ls))"
  by (simp add: writeIndentedLines_def split: prod.splits)

lemma writeLines_kept:
  "writeLines r w ls = (r', w') \<Longrightarrow> kept r w r' w'"
proof (induction ls arbitrary: r w)
  case Nil
  then show ?case by (auto simp: writeLines_Nil kept_refl)
next
  case (Cons l ls)
  obtain r1 w1 where s: "writer_Write r w l = (r1, w1)" by (cases "writer_Write r w l")
  with Cons.prems have rest: "writeLines r1 w1 ls = (r', w')" by (simp add: writeLines_Cons)
  from writer_Write_kept [OF s] Cons.IH [OF rest] show ?case by (rule kept_trans)
qed

lemma writeLines_out:
  "writeLines r w ls = (r', w') \<Longrightarrow> room w = None \<Longrightarrow> out w' = out w @ concat ls"
proof (induction ls arbitrary: r w)
  case Nil
  then show ?case by (auto simp: writeLines_Nil)
next
  case (Cons l ls)
  from Cons.prems have "writeLines (fst (writer_Write r w l)) (snd (writer_Write r w l)) ls = (r', w')"
    by (simp add: writeLines_Cons split: prod.splits)
  from Cons.IH [OF this] Cons.prems(2) show ?case
    by (simp add: writer_Write_unlimited)
qed

lemma writeLines_returns:
  assumes "room w = None"
  shows "\<exists>r' w'. writeLines r w ls = (r', w') \<and> out w' = out w @ concat ls \<and> room w' = None"
proof -
  obtain r' w' where s: "writeLines r w ls = (r', w')" by (cases "writeLines r w ls")
  from writeLines_out [OF s assms] writeLines_kept [OF s] assms s
  show ?thesis by (simp add: kept_def)
qed

lemma writeIndentedLines_kept:
  "writeIndentedLines r w ls = (r', w') \<Longrightarrow> kept r w r' w'"
proof (induction ls arbitrary: r w)
  case Nil
  then show ?case by (auto simp: writeIndentedLines_Nil kept_refl)
next
  case (Cons l ls)
  obtain r1 w1 where s1: "writer_Write r w (IndentStyle r) = (r1, w1)"
    by (cases "writer_Write r w (IndentStyle r)")
  obtain r2 w2 where s2: "writer_Write r1 w1 l = (r2, w2)" by (cases "writer_Write r1 w1 l")
  from Cons.prems s1 s2 have rest: "writeIndentedLines r2 w2 ls = (r', w')"
    by (simp add: writeIndentedLines_Cons)
  from kept_trans [OF writer_Write_kept [OF s1] writer_Write_kept [OF s2]]
    Cons.IH [OF rest]
  show ?case by (rule kept_trans)
qed

subsection \<open>The renderers\<close>

lemma renderDocument_kept:
  "renderDocument r w n nxt e = Inr (r', w', st, err) \<Longrightarrow> kept r w r' w'"
  by (auto simp: renderDocument_def continue_eq LastWriteBytes_def kept_refl
      split: if_splits sum.splits dest: writer_Write_kept)

lemma renderParagraph_kept:
  "renderParagraph r w n nxt e = Inr (r', w', st, err) \<Longrightarrow> kept r w r' w'"
  by (auto simp: renderParagraph_def continue_eq kept_refl
      split: if_splits dest: renderBlockSeparator_kept)

lemma renderText_kept:
  "renderText r w n nxt e = Inr (r', w', st, err) \<Longrightarrow> kept r w r' w'"
  by (auto simp: renderText_def continue_eq kept_refl
      split: kind.splits if_splits prod.splits
      dest!: writer_Write_kept intro: kept_trans)

lemma renderThematicBreak_kept:
  "renderThematicBreak r w n nxt e = Inr (r', w', st, err) \<Longrightarrow> kept r w r' w'"
  by (auto simp: renderThematicBreak_def continue_eq Let_def
      split: if_splits sum.splits dest: writer_Write_kept renderBlockSeparator_kept)

lemma renderCodeBlock_kept:
  "renderCodeBlock r w n nxt e = Inr (r', w', st, err) \<Longrightarrow> kept r w r' w'"
  by (auto simp: renderCodeBlock_def continue_eq
      split: kind.splits if_splits dest: writeIndentedLines_kept renderBlockSeparator_kept)

lemma renderFencedCodeBlock_kept:
  "renderFencedCodeBlock r w n nxt e = Inr (r', w', st, err) \<Longrightarrow> kept r w r' w'"
  by (auto simp: renderFencedCodeBlock_def continue_eq
      split: kind.splits if_splits prod.splits option.splits
      dest!: writer_Write_kept writeLines_kept renderBlockSeparator_kept
      intro: kept_trans)

lemma renderHTMLBlock_kept:
  "renderHTMLBlock r w n nxt e = Inr (r', w', st, err) \<Longrightarrow> kept r w r' w'"
  by (auto simp: renderHTMLBlock_def continue_eq
      split: kind.splits if_splits prod.splits option.splits
      dest!: writer_Write_kept writeLines_kept renderBlockSeparator_kept
      intro: kept_trans)

text \<open>The heading's renderers write their markers to the sink directly.\<close>

lemma renderATXHeading_kept:
  "renderATXHeading r w h n nxt e = Inr (r', w', st, err) \<Longrightarrow> kept r w r' w'"
  by (auto simp: renderATXHeading_def continue_eq Let_def Fprint_kept
      split: if_splits sum.splits
      dest!: renderBlockSeparator_kept
      intro: kept_trans [OF Fprint_kept] kept_trans [OF Fprint_kept Fprint_kept])

lemma renderSetextHeading_kept:
  "renderSetextHeading r w h n nxt e = Inr (r', w', st, err) \<Longrightarrow> kept r w r' w'"
  by (auto simp: renderSetextHeading_def continue_eq Let_def kept_refl
      split: if_splits sum.splits
      dest!: renderBlockSeparator_kept intro: kept_trans [OF Fprint_kept])

lemma renderHeading_kept:
  "renderHeading r w n nxt e = Inr (r', w', st, err) \<Longrightarrow> kept r w r' w'"
  by (auto simp: renderHeading_def split: kind.splits if_splits
      dest: renderATXHeading_kept renderSetextHeading_kept)

lemma handler_kept:
  assumes "nodeRendererFunc r w n nxt e = Inr (r', w', st, err)"
  shows "kept r w r' w'"
proof -
  have "nodeRendererFunc r w n nxt e = Inr (r', w', st, err) \<longrightarrow> kept r w r' w'"
    by (rule nodeRendererFunc_cases
          [where P = "\<lambda>x. x = Inr (r', w', st, err) \<longrightarrow> kept r w r' w'"])
       (auto simp: continue_eq kept_refl
         dest: renderHeading_kept renderDocument_kept renderParagraph_kept renderText_kept
           renderThematicBreak_kept renderCodeBlock_kept renderFencedCodeBlock_kept
           renderHTMLBlock_kept)
  with assms show ?thesis by simp
qed

subsection \<open>The walk\<close>

lemma walk_kept:
  "(\<forall>r' w' st err. walkHelper r w n nxt = Inr (r', w', st, err) \<longrightarrow> kept r w r' w')"
  "(\<forall>r' w' st err. walkChildren r w ns = Inr (r', w', st, err) \<longrightarrow> kept r w r' w')"
proof (induction r w n nxt and r w ns rule: walkHelper_walkChildren.induct)
  case (1 r w k cs nxt)
  show ?case
  proof (cases rule: handler_cases [of r w "Node k cs" nxt True])
    case (panics p)
    then show ?thesis by (simp add: walkHelper_eq)
  next
    case (returns r1 w1)
    note entry = this
    from handler_kept [OF entry] have k1: "kept r w r1 w1" .
    show ?thesis
    proof (cases rule: walkChildren_cases [of r1 w1 cs])
      case (panics p)
      with entry show ?thesis by (simp add: walkHelper_eq)
    next
      case (returns r2 w2)
      from 1 [OF entry refl refl refl] returns have k2: "kept r1 w1 r2 w2" by simp
      show ?thesis
      proof (cases rule: handler_cases [of r2 w2 "Node k cs" nxt False])
        case (panics p)
        with entry returns show ?thesis by (simp add: walkHelper_eq)
      next
        case exit: (returns r3 w3)
        from handler_kept [OF exit] k1 k2 have "kept r w r3 w3" by (blast intro: kept_trans)
        with entry returns exit show ?thesis by (simp add: walkHelper_eq)
      qed
    qed
  qed
next
  case (2 r w)
  show ?case by (simp add: kept_refl)
next
  case (3 r w c cs)
  show ?case
  proof (cases rule: walk_cases [of r w c "case cs of [] \<Rightarrow> None | c' # _ \<Rightarrow> Some c'"])
    case (panics p)
    then show ?thesis by (simp add: walkChildren_Cons)
  next
    case (returns r1 w1)
    from 3(1) returns have k1: "kept r w r1 w1" by simp
    from 3(2) [OF returns refl refl refl] have
      "\<forall>r' w' st err. walkChildren r1 w1 cs = Inr (r', w', st, err) \<longrightarrow> kept r1 w1 r' w'" by simp
    with k1 returns show ?thesis by (auto simp: walkChildren_Cons intro: kept_trans)
  qed
qed

section \<open>A sink of limited capacity\<close>

text \<open>The exit of the document, where the recorded length is within the recorded bytes.\<close>

lemma document_exit_eq:
  assumes "lastWriteLen (writer r) \<le> length (lastWriteBytes (writer r))"
  shows "renderDocument r w node nxt False =
           continue (if lastWriteLen (writer r) = 0
                        \<or> lastWriteBytes (writer r) ! (lastWriteLen (writer r) - 1) \<noteq> NL
                     then writer_Write r w [NL] else (r, w))"
  using assms
  by (auto simp: renderDocument_def LastWriteBytes_def index_def nat_diff_distrib')

lemma simP_pair [simp]: "simP C (rL, wL) (rU, wU) = sim C rL wL rU wU"
  by (simp add: simP_def)

lemma simO_continue [simp]: "simO C (continue sL) (continue sU) = simP C sL sU"
  by (cases sL; cases sU) (simp add: simO_def continue_def)

lemma simO_Inl [simp]: "simO C (Inl p) oU = (oU = Inl p)" "simO C oL (Inl p) = (oL = Inl p)"
  by (auto simp: simO_def split: sum.splits prod.splits)

lemma sim_config:
  "sim C rL wL rU wU \<Longrightarrow>
   HeadingStyle rL = HeadingStyle rU \<and> ThematicBreakStyle rL = ThematicBreakStyle rU
   \<and> ThematicBreakLength rL = ThematicBreakLength rU \<and> IndentStyle rL = IndentStyle rU"
  by (simp add: sim_def sameConfig_def)

text \<open>One write on both sides.\<close>

lemma bufWrite_synced:
  assumes "room wL = Some j" and "room wU = None" and "out wL = out wU"
    and "length (out wL) + j = C" and "failure wL = None"
  shows "if length p \<le> j
         then out (fst (bufWrite wL p)) = out (fst (bufWrite wU p))
              \<and> room (fst (bufWrite wL p)) = Some (j - length p)
              \<and> length (out (fst (bufWrite wL p))) + (j - length p) = C
              \<and> failure (fst (bufWrite wL p)) = None
              \<and> fst (snd (bufWrite wL p)) = length p
         else room (fst (bufWrite wL p)) = Some 0
              \<and> failure (fst (bufWrite wL p)) = Some WriteFailed
              \<and> C < length (out (fst (bufWrite wU p)))
              \<and> out (fst (bufWrite wL p)) = take C (out (fst (bufWrite wU p)))"
  using assms by (auto simp: bufWrite_def)

lemma bufWrite_unlimited_facts:
  assumes "room wU = None"
  shows "room (fst (bufWrite wU p)) = None" "failure (fst (bufWrite wU p)) = failure wU"
    "out (fst (bufWrite wU p)) = out wU @ p" "fst (snd (bufWrite wU p)) = length p"
  using assms by (simp_all add: bufWrite_def)

lemma bufWrite_stuck:
  assumes "room wL = Some 0" and "failure wL \<noteq> None"
  shows "room (fst (bufWrite wL p)) = Some 0" "failure (fst (bufWrite wL p)) \<noteq> None"
    "out (fst (bufWrite wL p)) = out wL"
  using assms by (simp_all add: bufWrite_def)

lemma sim_bufWrite:
  assumes "sim C rL wL rU wU"
  shows "sim C rL (fst (bufWrite wL p)) rU (fst (bufWrite wU p))"
proof (cases "failure wL = None")
  case True
  with assms obtain j where s: "room wL = Some j" "room wU = None" "out wL = out wU"
    "length (out wL) + j = C" "failure wU = None" "rL = rU" "sameConfig rL rU"
    "lenOK (writer rL)" "lenOK (writer rU)"
    by (auto simp: sim_def split: option.splits)
  from bufWrite_synced [OF s(1-4) True, of p] bufWrite_unlimited_facts [OF s(2), of p] s
  show ?thesis
    by (cases "length p \<le> j") (simp_all add: sim_def)
next
  case False
  with assms have s: "room wL = Some 0" "room wU = None" "failure wU = None"
    "C < length (out wU)" "out wL = take C (out wU)" "sameConfig rL rU"
    "lenOK (writer rL)" "lenOK (writer rU)"
    by (simp_all add: sim_def)
  from bufWrite_stuck [OF s(1) False, of p] bufWrite_unlimited_facts [OF s(2), of p] s
  show ?thesis
    by (auto simp: sim_def)
qed

lemma sim_Fprint:
  "sim C rL wL rU wU \<Longrightarrow> sim C rL (Fprint wL s) rU (Fprint wU s)"
  by (simp add: Fprint_def sim_bufWrite)

lemma writer_Write_eq:
  "writer_Write r w p =
     (r\<lparr>writer := (writer r)\<lparr>lastWriteBytes := p, lastWriteLen := fst (snd (bufWrite w p))\<rparr>\<rparr>,
      fst (bufWrite w p))"
  by (simp add: writer_Write_def Write_def split: prod.splits)

lemma writer_Write_lenOK: "lenOK (writer (fst (writer_Write r w p)))"
  using bufWrite_keeps [of w p] by (simp add: writer_Write_eq lenOK_def)

lemma sim_Write:
  assumes "sim C rL wL rU wU"
  shows "simP C (writer_Write rL wL p) (writer_Write rU wU p)"
proof -
  from sim_bufWrite [OF assms, of p]
  have s: "sim C rL (fst (bufWrite wL p)) rU (fst (bufWrite wU p))" .
  note len = writer_Write_lenOK [of rL wL p] writer_Write_lenOK [of rU wU p]
  show ?thesis
  proof (cases "failure (fst (bufWrite wL p)) = None")
    case True
    then have f: "failure wL = None" by (auto simp: bufWrite_def split: option.splits if_splits)
    with assms obtain j where a: "room wL = Some j" "room wU = None" "out wL = out wU"
      "length (out wL) + j = C" "rL = rU"
      by (auto simp: sim_def split: option.splits)
    from True bufWrite_synced [OF a(1-4) f, of p] have fits: "length p \<le> j"
      by (cases "length p \<le> j") simp_all
    with bufWrite_synced [OF a(1-4) f, of p] bufWrite_unlimited_facts [OF a(2), of p]
    have "fst (snd (bufWrite wL p)) = fst (snd (bufWrite wU p))" by simp
    with s True a(5) len show ?thesis
      by (simp add: writer_Write_eq sim_def sameConfig_def)
  next
    case False
    with s len show ?thesis
      by (simp add: writer_Write_eq sim_def sameConfig_def)
  qed
qed

text \<open>A write on one side only, after the failure.\<close>

lemma sim_Write_left:
  assumes "sim C rL wL rU wU" and "failure wL \<noteq> None"
  shows "simP C (writer_Write rL wL p) (rU, wU)"
  using assms bufWrite_stuck [of wL p] writer_Write_lenOK [of rL wL p]
  by (auto simp: sim_def sameConfig_def writer_Write_eq)

lemma sim_Write_right:
  assumes "sim C rL wL rU wU" and "failure wL \<noteq> None"
  shows "simP C (rL, wL) (writer_Write rU wU p)"
  using assms bufWrite_unlimited_facts [of wU p] writer_Write_lenOK [of rU wU p]
  by (auto simp: sim_def sameConfig_def writer_Write_eq)

subsection \<open>The renderers side by side\<close>

lemma simP_Write:
  "simP C sL sU \<Longrightarrow> simP C (writer_Write (fst sL) (snd sL) p) (writer_Write (fst sU) (snd sU) p)"
  by (simp add: simP_def sim_Write [unfolded simP_def])

lemma simP_config:
  "simP C sL sU \<Longrightarrow>
   HeadingStyle (fst sL) = HeadingStyle (fst sU)
   \<and> ThematicBreakStyle (fst sL) = ThematicBreakStyle (fst sU)
   \<and> ThematicBreakLength (fst sL) = ThematicBreakLength (fst sU)
   \<and> IndentStyle (fst sL) = IndentStyle (fst sU)"
  by (simp add: simP_def sim_config)

lemma simP_separator:
  "simP C sL sU \<Longrightarrow>
   simP C (renderBlockSeparator (fst sL) (snd sL) nxt) (renderBlockSeparator (fst sU) (snd sU) nxt)"
  by (simp add: renderBlockSeparator_def simP_Write)

lemma simP_writeLines:
  "simP C sL sU \<Longrightarrow>
   simP C (writeLines (fst sL) (snd sL) ls) (writeLines (fst sU) (snd sU) ls)"
proof (induction ls arbitrary: sL sU)
  case Nil
  then show ?case by (simp add: writeLines_Nil)
next
  case (Cons l ls)
  from Cons.IH [OF simP_Write [OF Cons.prems, of l]] show ?case
    by (simp add: writeLines_Cons split_def)
qed

lemma simP_writeIndentedLines:
  "simP C sL sU \<Longrightarrow>
   simP C (writeIndentedLines (fst sL) (snd sL) ls) (writeIndentedLines (fst sU) (snd sU) ls)"
proof (induction ls arbitrary: sL sU)
  case Nil
  then show ?case by (simp add: writeIndentedLines_Nil)
next
  case (Cons l ls)
  from simP_config [OF Cons.prems] have i: "IndentStyle (fst sL) = IndentStyle (fst sU)" by simp
  from Cons.IH [OF simP_Write [OF simP_Write [OF Cons.prems, of "IndentStyle (fst sU)"], of l]]
  show ?case
    by (simp add: writeIndentedLines_Cons split_def i)
qed

lemma sim_simP: "sim C rL wL rU wU \<Longrightarrow> simP C (rL, wL) (rU, wU)"
  by simp

lemma renderParagraph_sim:
  "sim C rL wL rU wU \<Longrightarrow> simO C (renderParagraph rL wL n nxt e) (renderParagraph rU wU n nxt e)"
  using simP_separator [of C "(rL, wL)" "(rU, wU)" nxt]
  by (simp add: renderParagraph_def)

lemma renderText_sim:
  "sim C rL wL rU wU \<Longrightarrow> simO C (renderText rL wL n nxt e) (renderText rU wU n nxt e)"
  using simP_Write [of C "(rL, wL)" "(rU, wU)"]
    simP_Write [OF simP_Write [of C "(rL, wL)" "(rU, wU)"]]
  by (cases "Kind n") (simp_all add: renderText_def split_def)

lemma renderThematicBreak_sim:
  "sim C rL wL rU wU \<Longrightarrow>
   simO C (renderThematicBreak rL wL n nxt e) (renderThematicBreak rU wU n nxt e)"
  using simP_Write [of C "(rL, wL)" "(rU, wU)"] simP_separator [of C "(rL, wL)" "(rU, wU)" nxt]
    sim_config [of C rL wL rU wU]
  by (simp add: renderThematicBreak_def Let_def split: sum.splits)

lemma renderCodeBlock_sim:
  "sim C rL wL rU wU \<Longrightarrow> simO C (renderCodeBlock rL wL n nxt e) (renderCodeBlock rU wU n nxt e)"
  using simP_writeIndentedLines [of C "(rL, wL)" "(rU, wU)"]
    simP_separator [of C "(rL, wL)" "(rU, wU)" nxt]
  by (cases "Kind n") (simp_all add: renderCodeBlock_def)

lemma renderFencedCodeBlock_sim:
  assumes "sim C rL wL rU wU"
  shows "simO C (renderFencedCodeBlock rL wL n nxt e) (renderFencedCodeBlock rU wU n nxt e)"
proof (cases "Kind n")
  case (KindFencedCodeBlock language ls)
  let ?L1 = "writer_Write rL wL ''```''" and ?U1 = "writer_Write rU wU ''```''"
  from assms have s1: "simP C ?L1 ?U1" by (rule sim_Write)
  let ?L2 = "case language of Some lang \<Rightarrow> writer_Write (fst ?L1) (snd ?L1) lang | None \<Rightarrow> ?L1"
  let ?U2 = "case language of Some lang \<Rightarrow> writer_Write (fst ?U1) (snd ?U1) lang | None \<Rightarrow> ?U1"
  from s1 have s2: "simP C ?L2 ?U2" by (cases language) (simp_all add: simP_Write)
  from simP_writeLines [OF simP_Write [OF s2, of "[NL]"], of ls] simP_separator [OF s1, of nxt]
  show ?thesis
    by (cases language) (simp_all add: renderFencedCodeBlock_def KindFencedCodeBlock split_def)
qed (simp_all add: renderFencedCodeBlock_def)

lemma renderHTMLBlock_sim:
  assumes "sim C rL wL rU wU"
  shows "simO C (renderHTMLBlock rL wL n nxt e) (renderHTMLBlock rU wU n nxt e)"
proof (cases "Kind n")
  case (KindHTMLBlock ls closureLine)
  from assms have s0: "simP C (rL, wL) (rU, wU)" by simp
  let ?L1 = "case closureLine of Some closure \<Rightarrow> writer_Write rL wL closure | None \<Rightarrow> (rL, wL)"
  let ?U1 = "case closureLine of Some closure \<Rightarrow> writer_Write rU wU closure | None \<Rightarrow> (rU, wU)"
  from assms have s1: "simP C ?L1 ?U1" by (cases closureLine) (simp_all add: sim_Write)
  from simP_writeLines [OF s0, of ls] simP_separator [OF s1, of nxt]
  show ?thesis
    by (simp add: renderHTMLBlock_def KindHTMLBlock split_def)
qed (simp_all add: renderHTMLBlock_def)

lemma renderATXHeading_sim:
  assumes "sim C rL wL rU wU"
  shows "simO C (renderATXHeading rL wL h n nxt e) (renderATXHeading rU wU h n nxt e)"
proof (cases "Repeat ''#'' (Level h)")
  case (Inl p)
  then show ?thesis
    using simP_separator [of C "(rL, wL)" "(rU, wU)" nxt] assms sim_config [OF assms]
    by (simp add: renderATXHeading_def)
next
  case (Inr cs)
  from assms have f1: "sim C rL (Fprint wL cs) rU (Fprint wU cs)" by (rule sim_Fprint)
  from f1 have f2: "sim C rL (Fprint (Fprint wL cs) '' '') rU (Fprint (Fprint wU cs) '' '')"
    by (rule sim_Fprint)
  from assms have f3: "simP C (rL, Fprint wL ('' '' @ cs)) (rU, Fprint wU ('' '' @ cs))"
    by (simp add: sim_Fprint)
  from f1 f2 simP_separator [OF f3, of nxt] simP_separator [of C "(rL, wL)" "(rU, wU)" nxt]
    assms sim_config [OF assms]
  show ?thesis
    by (simp add: renderATXHeading_def Inr Let_def)
qed

lemma renderSetextHeading_sim:
  assumes "sim C rL wL rU wU"
  shows "simO C (renderSetextHeading rL wL h n nxt e) (renderSetextHeading rU wU h n nxt e)"
proof -
  have "simP C (renderBlockSeparator rL (Fprint wL s) nxt) (renderBlockSeparator rU (Fprint wU s) nxt)" for s
    using simP_separator [of C "(rL, Fprint wL s)" "(rU, Fprint wU s)" nxt] sim_Fprint [OF assms, of s]
    by simp
  with assms sim_config [OF assms] show ?thesis
    by (simp add: renderSetextHeading_def Let_def split: sum.splits)
qed

lemma renderHeading_sim:
  "sim C rL wL rU wU \<Longrightarrow> simO C (renderHeading rL wL n nxt e) (renderHeading rU wU n nxt e)"
  using sim_config [of C rL wL rU wU]
  by (cases "Kind n") (simp_all add: renderHeading_def renderATXHeading_sim renderSetextHeading_sim)

lemma renderDocument_sim:
  assumes "sim C rL wL rU wU"
  shows "simO C (renderDocument rL wL n nxt e) (renderDocument rU wU n nxt e)"
proof (cases e)
  case True
  with assms show ?thesis by (simp add: renderDocument_def)
next
  case exit: False
  from assms have len: "lastWriteLen (writer rL) \<le> length (lastWriteBytes (writer rL))"
    "lastWriteLen (writer rU) \<le> length (lastWriteBytes (writer rU))"
    by (simp_all add: sim_def lenOK_def)
  show ?thesis
  proof (cases "failure wL = None")
    case True
    with assms have "rL = rU" by (simp add: sim_def)
    with assms sim_Write [OF assms, of "[NL]"] show ?thesis
      by (simp add: exit document_exit_eq [OF len(2)])
  next
    case False
    from sim_Write [OF assms, of "[NL]"] sim_Write_left [OF assms False, of "[NL]"]
      sim_Write_right [OF assms False, of "[NL]"] assms
    show ?thesis
      by (simp add: exit document_exit_eq [OF len(1)] document_exit_eq [OF len(2)])
  qed
qed

lemma handler_sim:
  assumes "sim C rL wL rU wU"
  shows "simO C (nodeRendererFunc rL wL n nxt e) (nodeRendererFunc rU wU n nxt e)"
  using assms
  by (cases "NodeKindOf (Kind n)")
     (simp_all add: nodeRendererFunc_eq renderDocument_sim renderHeading_sim renderParagraph_sim
        renderText_sim renderThematicBreak_sim renderCodeBlock_sim renderFencedCodeBlock_sim
        renderHTMLBlock_sim)

subsection \<open>The walk side by side\<close>

lemma simO_Inr:
  "simO C (Inr (rL, wL, sL, eL)) (Inr (rU, wU, sU, eU)) = sim C rL wL rU wU"
  by (simp add: simO_def)

lemma walk_sim:
  "(\<forall>rU wU. sim C r w rU wU \<longrightarrow> simO C (walkHelper r w n nxt) (walkHelper rU wU n nxt))"
  "(\<forall>rU wU. sim C r w rU wU \<longrightarrow> simO C (walkChildren r w ns) (walkChildren rU wU ns))"
proof (induction r w n nxt and r w ns rule: walkHelper_walkChildren.induct)
  case (1 r w k cs nxt)
  show ?case
  proof (intro allI impI)
    fix rU wU
    assume s: "sim C r w rU wU"
    note entrySim = handler_sim [OF s, of "Node k cs" nxt True]
    show "simO C (walkHelper r w (Node k cs) nxt) (walkHelper rU wU (Node k cs) nxt)"
    proof (cases rule: handler_cases [of r w "Node k cs" nxt True])
      case (panics p)
      with entrySim show ?thesis by (simp add: walkHelper_eq)
    next
      case (returns r1 w1)
      note entry = this
      show ?thesis
      proof (cases rule: handler_cases [of rU wU "Node k cs" nxt True])
        case (panics p)
        with entrySim entry show ?thesis by simp
      next
        case entryU: (returns rU1 wU1)
        from entrySim entry entryU have s1: "sim C r1 w1 rU1 wU1" by (simp add: simO_Inr)
        from 1 [OF entry refl refl refl] s1
        have kids: "simO C (walkChildren r1 w1 cs) (walkChildren rU1 wU1 cs)" by simp
        show ?thesis
        proof (cases rule: walkChildren_cases [of r1 w1 cs])
          case (panics p)
          with kids entry entryU show ?thesis by (simp add: walkHelper_eq)
        next
          case (returns r2 w2)
          note kidsL = this
          show ?thesis
          proof (cases rule: walkChildren_cases [of rU1 wU1 cs])
            case (panics p)
            with kids kidsL show ?thesis by simp
          next
            case kidsU: (returns rU2 wU2)
            from kids kidsL kidsU have s2: "sim C r2 w2 rU2 wU2" by (simp add: simO_Inr)
            from handler_sim [OF s2, of "Node k cs" nxt False] entry entryU kidsL kidsU
            show ?thesis
              by (simp add: walkHelper_eq)
          qed
        qed
      qed
    qed
  qed
next
  case (2 r w)
  show ?case by (simp add: simO_Inr)
next
  case (3 r w c cs)
  let ?nxt = "case cs of [] \<Rightarrow> None | c' # _ \<Rightarrow> Some c'"
  show ?case
  proof (intro allI impI)
    fix rU wU
    assume s: "sim C r w rU wU"
    from 3(1) s have first: "simO C (walkHelper r w c ?nxt) (walkHelper rU wU c ?nxt)" by simp
    show "simO C (walkChildren r w (c # cs)) (walkChildren rU wU (c # cs))"
    proof (cases rule: walk_cases [of r w c ?nxt])
      case (panics p)
      with first show ?thesis by (simp add: walkChildren_Cons)
    next
      case (returns r1 w1)
      note firstL = this
      show ?thesis
      proof (cases rule: walk_cases [of rU wU c ?nxt])
        case (panics p)
        with first firstL show ?thesis by simp
      next
        case firstU: (returns rU1 wU1)
        from first firstL firstU have s1: "sim C r1 w1 rU1 wU1" by (simp add: simO_Inr)
        from 3(2) [OF firstL refl refl refl] s1
        have "simO C (walkChildren r1 w1 cs) (walkChildren rU1 wU1 cs)" by simp
        with firstL firstU show ?thesis by (simp add: walkChildren_Cons)
      qed
    qed
  qed
qed

subsection \<open>Rendering side by side\<close>

text \<open>
  Where rendering into a sink that accepts every write returns, rendering into a sink
  that accepts \<open>k\<close> bytes returns too: the sink gets the first \<open>k\<close> bytes, and the
  failure is returned if and only if there are more.  Where the one panics, so does
  the other.
\<close>

lemma Render_capacity:
  assumes "Render c None n = Inr (bs, e)"
  shows "e = None
       \<and> Render c (Some k) n = Inr (take k bs, if length bs \<le> k then None else Some WriteFailed)"
proof -
  let ?r = "NewNodeRenderer c"
  let ?wL = "\<lparr>out = [], room = Some k, failure = None\<rparr>"
  let ?wU = "\<lparr>out = [], room = None, failure = None\<rparr>"
  have s: "sim k ?r ?wL ?r ?wU"
    by (simp add: sim_def sameConfig_def lenOK_def NewNodeRenderer_def)
  from assms obtain rU' wU' where
    u: "walkHelper ?r ?wU n None = Inr (rU', wU', WalkContinue, None)"
    and bs: "bs = out wU'" and e: "e = failure wU'"
    by (cases rule: walk_cases [of ?r ?wU n None])
       (auto simp: Render_def renderer_Render_def Flush_def)
  from walk_sim(1) [of k ?r ?wL n None, rule_format, OF s] u obtain rL' wL' where
    l: "walkHelper ?r ?wL n None = Inr (rL', wL', WalkContinue, None)"
    and f: "sim k rL' wL' rU' wU'"
    by (cases rule: walk_cases [of ?r ?wL n None]) (auto simp: simO_Inr)
  from l have r: "Render c (Some k) n = Inr (out wL', failure wL')"
    by (simp add: Render_def renderer_Render_def Flush_def)
  show ?thesis
  proof (cases "failure wL' = None")
    case True
    with f bs e r show ?thesis by (auto simp: sim_def split: option.splits)
  next
    case False
    then have "failure wL' = Some WriteFailed" by (cases "failure wL'") (auto intro: error.exhaust)
    with f bs e r show ?thesis by (auto simp: sim_def)
  qed
qed

lemma Render_capacity_panic:
  assumes "Render c None n = Inl p"
  shows "Render c (Some k) n = Inl p"
proof -
  let ?r = "NewNodeRenderer c"
  let ?wL = "\<lparr>out = [], room = Some k, failure = None\<rparr>"
  let ?wU = "\<lparr>out = [], room = None, failure = None\<rparr>"
  have s: "sim k ?r ?wL ?r ?wU"
    by (simp add: sim_def sameConfig_def lenOK_def NewNodeRenderer_def)
  from assms have u: "walkHelper ?r ?wU n None = Inl p"
    by (cases rule: walk_cases [of ?r ?wU n None])
       (auto simp: Render_def renderer_Render_def Flush_def)
  from walk_sim(1) [of k ?r ?wL n None, rule_format, OF s] u
  have "walkHelper ?r ?wL n None = Inl p" by simp
  then show ?thesis by (simp add: Render_def renderer_Render_def)
qed

section \<open>Write failures\<close>

text \<open>The sink keeps the error of a write that fails, and no write clears it.\<close>

lemma bufWrite_failure:
  "failure (fst (bufWrite wr source)) =
     (if snd (snd (bufWrite wr source)) = None then failure wr else Some WriteFailed)"
  by (simp add: bufWrite_def split: option.splits)

text \<open>\<open>Render\<close> is the traversal of every node, and then the \<open>Flush\<close>.\<close>

lemma renderer_Render_visitAll:
  "renderer_Render r w n =
     (case visitAll r w n None of
        Inl p \<Rightarrow> Inl p
      | Inr (r1, w1) \<Rightarrow> Inr (r1, w1, failure w1))"
  by (simp add: renderer_Render_def walk_visitAll(1) Flush_def split: sum.splits prod.splits)

text \<open>
  Rendering into a sink that accepts \<open>k\<close> bytes, told from rendering into a sink that
  accepts every write.
\<close>

lemma Render_limited:
  "Render c (Some k) n =
     (case Render c None n of
        Inl p \<Rightarrow> Inl p
      | Inr (full, _) \<Rightarrow>
          Inr (take k full, if length full \<le> k then None else Some WriteFailed))"
proof (cases "Render c None n")
  case (Inl p)
  then show ?thesis by (simp add: Render_capacity_panic)
next
  case (Inr x)
  obtain full e where "x = (full, e)" by (cases x)
  with Inr Render_capacity [of c n full e k] show ?thesis by simp
qed

text \<open>
  C8, as the code has it.  A failed write does not abort the traversal; it is
  returned to the caller when the traversal is over.  \<open>Write\<close> drops the sink's
  error and records only the number of bytes written; every renderer that returns,
  returns \<open>WalkContinue\<close> and no error; so the walk of any tree is the traversal
  that calls the renderer of every node on entry and on exit, whatever the sink
  does.  The sink keeps the error of a write that failed, the walk does not clear
  it, and \<open>Render\<close> returns what the sink has kept, from the \<open>Flush\<close> that follows
  the traversal of every node.  So rendering into a sink that accepts \<open>k\<close> bytes
  goes as rendering into a sink that accepts every write does: it panics if that
  panics, and otherwise the sink is left with the first \<open>k\<close> bytes of the whole
  output, and the write failure is returned if and only if the whole output is
  longer than \<open>k\<close> bytes; into a sink that accepts every write no error is
  returned.
\<close>

theorem write_failure_reported_after_walk:
  "Write d wr source =
     (d\<lparr>lastWriteBytes := source, lastWriteLen := fst (snd (bufWrite wr source))\<rparr>,
      fst (bufWrite wr source))
   \<and> (nodeRendererFunc r w n nxt entering = Inr (r', w', st, err) \<longrightarrow>
        st = WalkContinue \<and> err = None)
   \<and> walkHelper r w n nxt =
       (case visitAll r w n nxt of
          Inl p \<Rightarrow> Inl p
        | Inr (r1, w1) \<Rightarrow> Inr (r1, w1, WalkContinue, None))
   \<and> failure (fst (bufWrite wr source)) =
       (if snd (snd (bufWrite wr source)) = None then failure wr else Some WriteFailed)
   \<and> (walkHelper r w n nxt = Inr (r', w', st, err) \<and> failure w \<noteq> None \<longrightarrow>
        failure w' \<noteq> None)
   \<and> renderer_Render r w n =
       (case visitAll r w n None of
          Inl p \<Rightarrow> Inl p
        | Inr (r1, w1) \<Rightarrow> Inr (r1, w1, failure w1))
   \<and> Render c (Some k) n =
       (case Render c None n of
          Inl p \<Rightarrow> Inl p
        | Inr (full, _) \<Rightarrow>
            Inr (take k full, if length full \<le> k then None else Some WriteFailed))
   \<and> (Render c None n = Inr (bs, e) \<longrightarrow> e = None)"
proof (intro conjI impI)
  show "Write d wr source =
     (d\<lparr>lastWriteBytes := source, lastWriteLen := fst (snd (bufWrite wr source))\<rparr>,
      fst (bufWrite wr source))"
    by (simp add: Write_def split: prod.splits)
next
  assume "nodeRendererFunc r w n nxt entering = Inr (r', w', st, err)"
  from handler_continue [OF this] show "st = WalkContinue" "err = None" by simp_all
next
  show "walkHelper r w n nxt =
       (case visitAll r w n nxt of
          Inl p \<Rightarrow> Inl p
        | Inr (r1, w1) \<Rightarrow> Inr (r1, w1, WalkContinue, None))"
    by (rule walk_visitAll)
next
  show "failure (fst (bufWrite wr source)) =
       (if snd (snd (bufWrite wr source)) = None then failure wr else Some WriteFailed)"
    by (rule bufWrite_failure)
next
  assume "walkHelper r w n nxt = Inr (r', w', st, err) \<and> failure w \<noteq> None"
  with walk_kept(1) [of r w n nxt] show "failure w' \<noteq> None"
    by (auto simp: kept_def)
next
  show "renderer_Render r w n =
       (case visitAll r w n None of
          Inl p \<Rightarrow> Inl p
        | Inr (r1, w1) \<Rightarrow> Inr (r1, w1, failure w1))"
    by (rule renderer_Render_visitAll)
next
  show "Render c (Some k) n =
       (case Render c None n of
          Inl p \<Rightarrow> Inl p
        | Inr (full, _) \<Rightarrow>
            Inr (take k full, if length full \<le> k then None else Some WriteFailed))"
    by (rule Render_limited)
next
  assume "Render c None n = Inr (bs, e)"
  from Render_capacity [OF this, of 0] show "e = None" by simp
qed

text \<open>
  A sink that accepts nothing.  The write of \<open>A\<close> fails and the writer records no
  byte written.  From the sink that has failed, the renderer of the text \<open>B\<close> and the
  walk of its paragraph return \<open>WalkContinue\<close> and no error, and the sink keeps its
  error.  The document of the two paragraphs is rendered to the end, to no output,
  and \<open>Render\<close> returns the failure.  Into a sink that accepts three bytes the same
  document leaves \<open>A\<close> and the separator and the failure is returned; into a sink
  that accepts five bytes, or every write, it is rendered whole and no error is
  returned.
\<close>

theorem write_failure_reported_after_walk_witness:
  "Write \<lparr>lastWriteBytes = [], lastWriteLen = 0\<rparr> (emptySink (Some 0)) ''A''
     = (\<lparr>lastWriteBytes = ''A'', lastWriteLen = 0\<rparr>,
        \<lparr>out = [], room = Some 0, failure = Some WriteFailed\<rparr>)
   \<and> nodeRendererFunc (NewNodeRenderer (exampleConfig HeadingStyleATX))
        \<lparr>out = [], room = Some 0, failure = Some WriteFailed\<rparr> (textNode ''B'') None True
     = Inr ((NewNodeRenderer (exampleConfig HeadingStyleATX))
              \<lparr>writer := \<lparr>lastWriteBytes = ''B'', lastWriteLen = 0\<rparr>\<rparr>,
            \<lparr>out = [], room = Some 0, failure = Some WriteFailed\<rparr>, WalkContinue, None)
   \<and> walkHelper (NewNodeRenderer (exampleConfig HeadingStyleATX))
        \<lparr>out = [], room = Some 0, failure = Some WriteFailed\<rparr> (paragraphNode ''B'') None
     = Inr ((NewNodeRenderer (exampleConfig HeadingStyleATX))
              \<lparr>writer := \<lparr>lastWriteBytes = ''B'', lastWriteLen = 0\<rparr>\<rparr>,
            \<lparr>out = [], room = Some 0, failure = Some WriteFailed\<rparr>, WalkContinue, None)
   \<and> renderer_Render (NewNodeRenderer (exampleConfig HeadingStyleATX)) (emptySink (Some 0))
        (documentNode [paragraphNode ''A'', paragraphNode ''B''])
     = Inr ((NewNodeRenderer (exampleConfig HeadingStyleATX))
              \<lparr>writer := \<lparr>lastWriteBytes = [NL], lastWriteLen = 0\<rparr>\<rparr>,
            \<lparr>out = [], room = Some 0, failure = Some WriteFailed\<rparr>, Some WriteFailed)
   \<and> Render (exampleConfig HeadingStyleATX) None
        (documentNode [paragraphNode ''A'', paragraphNode ''B''])
     = Inr (''A'' @ [NL, NL] @ ''B'' @ [NL], None)
   \<and> Render (exampleConfig HeadingStyleATX) (Some 0)
        (documentNode [paragraphNode ''A'', paragraphNode ''B'']) = Inr ([], Some WriteFailed)
   \<and> Render (exampleConfig HeadingStyleATX) (Some 3)
        (documentNode [paragraphNode ''A'', paragraphNode ''B''])
     = Inr (''A'' @ [NL, NL], Some WriteFailed)
   \<and> Render (exampleConfig HeadingStyleATX) (Some 5)
        (documentNode [paragraphNode ''A'', paragraphNode ''B''])
     = Inr (''A'' @ [NL, NL] @ ''B'' @ [NL], None)"
proof -
  let ?c = "exampleConfig HeadingStyleATX"
  let ?r = "NewNodeRenderer ?c"
  let ?rB = "?r\<lparr>writer := \<lparr>lastWriteBytes = ''B'', lastWriteLen = 0\<rparr>\<rparr>"
  let ?rD = "?r\<lparr>writer := \<lparr>lastWriteBytes = [NL], lastWriteLen = 0\<rparr>\<rparr>"
  let ?wf = "\<lparr>out = [], room = Some 0, failure = Some WriteFailed\<rparr>"
  let ?doc = "documentNode [paragraphNode ''A'', paragraphNode ''B'']"
  have w: "bufWrite (emptySink (Some 0)) ''A'' = (?wf, 0, Some WriteFailed)"
    by code_simp
  have h: "nodeRendererFunc ?r ?wf (textNode ''B'') None True = Inr (?rB, ?wf, WalkContinue, None)"
    by code_simp
  have vB: "visitAll ?r ?wf (paragraphNode ''B'') None = Inr (?rB, ?wf)"
    by code_simp
  have vD: "visitAll ?r (emptySink (Some 0)) ?doc None = Inr (?rD, ?wf)"
    by code_simp
  have full: "Render ?c None ?doc = Inr (''A'' @ [NL, NL] @ ''B'' @ [NL], None)"
    by code_simp
  note t1 = write_failure_reported_after_walk [where d = "\<lparr>lastWriteBytes = [], lastWriteLen = 0\<rparr>"
      and wr = "emptySink (Some 0)" and source = "''A''"
      and r = ?r and w = ?wf and n = "paragraphNode ''B''" and nxt = None and entering = True
      and r' = ?rB and w' = ?wf and st = WalkContinue and err = None
      and c = ?c and k = 0 and bs = "[]" and e = None]
  note t2 = write_failure_reported_after_walk [where d = "\<lparr>lastWriteBytes = [], lastWriteLen = 0\<rparr>"
      and wr = "emptySink (Some 0)" and source = "''A''"
      and r = ?r and w = "emptySink (Some 0)" and n = ?doc and nxt = None and entering = True
      and r' = ?rD and w' = ?wf and st = WalkContinue and err = None
      and c = ?c and bs = "''A'' @ [NL, NL] @ ''B'' @ [NL]" and e = None]
  from t1 w have c1: "Write \<lparr>lastWriteBytes = [], lastWriteLen = 0\<rparr> (emptySink (Some 0)) ''A''
     = (\<lparr>lastWriteBytes = ''A'', lastWriteLen = 0\<rparr>, ?wf)"
    by simp
  from t1 vB have c3: "walkHelper ?r ?wf (paragraphNode ''B'') None = Inr (?rB, ?wf, WalkContinue, None)"
    by simp
  from t2 [where k = 0] vD
  have c4: "renderer_Render ?r (emptySink (Some 0)) ?doc = Inr (?rD, ?wf, Some WriteFailed)"
    by simp
  from t2 [where k = 0] full have c5: "Render ?c (Some 0) ?doc = Inr ([], Some WriteFailed)"
    by simp
  from t2 [where k = 3] full
  have c6: "Render ?c (Some 3) ?doc = Inr (''A'' @ [NL, NL], Some WriteFailed)"
    by simp
  from t2 [where k = 5] full
  have c7: "Render ?c (Some 5) ?doc = Inr (''A'' @ [NL, NL] @ ''B'' @ [NL], None)"
    by simp
  from c1 h c3 c4 full c5 c6 c7 show ?thesis by (intro conjI)
qed

text \<open>
  C8 as stated fails: into a sink that accepts nothing the first write, of \<open>A\<close>,
  fails, yet the walk goes on to the exit of the document, whose newline is the
  last write attempted, and returns \<open>WalkContinue\<close> and no error.
\<close>

theorem write_failure_aborts_counterexample:
  "snd (snd (bufWrite (emptySink (Some 0)) ''A'')) = Some WriteFailed
   \<and> walkHelper (NewNodeRenderer (exampleConfig HeadingStyleATX)) (emptySink (Some 0))
        (documentNode [paragraphNode ''A'', paragraphNode ''B'']) None
     = Inr ((NewNodeRenderer (exampleConfig HeadingStyleATX))
              \<lparr>writer := \<lparr>lastWriteBytes = [NL], lastWriteLen = 0\<rparr>\<rparr>,
            \<lparr>out = [], room = Some 0, failure = Some WriteFailed\<rparr>, WalkContinue, None)"
  by code_simp

section \<open>Fenced code blocks\<close>

text \<open>On entry the renderer is a sequence of writes: the fence, the language, a newline, the lines.\<close>

lemma fenced_entry_writes:
  assumes "Kind node = KindFencedCodeBlock language ls"
  shows "renderFencedCodeBlock r w node nxt True =
           continue (writeLines r w
             (''```'' # (case language of Some lang \<Rightarrow> [lang] | None \<Rightarrow> []) @ [NL] # ls))"
  by (cases language)
     (simp_all add: renderFencedCodeBlock_def assms writeLines_Cons split: prod.splits)

text \<open>
  C4.  For a fenced code block and a sink that accepts every write.  On entry the
  output grows by the three-backtick fence, then the language tag when there is one,
  then a newline, then every line of the block as it is.  On exit the same fence is
  written first, whatever the phase, and only the block separator follows it.
\<close>

theorem fenced_code_block_emits:
  assumes "Kind node = KindFencedCodeBlock language ls" and "room w = None"
  shows "(\<exists>r' w'. renderFencedCodeBlock r w node nxt True = Inr (r', w', WalkContinue, None)
            \<and> out w' = out w @ ''```'' @ (case language of Some lang \<Rightarrow> lang | None \<Rightarrow> [])
                          @ [NL] @ concat ls)
       \<and> (\<exists>r1 w1. writer_Write r w ''```'' = (r1, w1) \<and> out w1 = out w @ ''```''
            \<and> renderFencedCodeBlock r w node nxt False
                = continue (renderBlockSeparator r1 w1 nxt))"
proof (intro conjI)
  from writeLines_returns [OF assms(2), of r
      "''```'' # (case language of Some lang \<Rightarrow> [lang] | None \<Rightarrow> []) @ [NL] # ls"]
  show "\<exists>r' w'. renderFencedCodeBlock r w node nxt True = Inr (r', w', WalkContinue, None)
            \<and> out w' = out w @ ''```'' @ (case language of Some lang \<Rightarrow> lang | None \<Rightarrow> [])
                          @ [NL] @ concat ls"
    by (cases language) (auto simp: fenced_entry_writes [OF assms(1)] continue_def)
  from assms(2)
  show "\<exists>r1 w1. writer_Write r w ''```'' = (r1, w1) \<and> out w1 = out w @ ''```''
            \<and> renderFencedCodeBlock r w node nxt False
                = continue (renderBlockSeparator r1 w1 nxt)"
    by (simp add: renderFencedCodeBlock_def assms(1) writer_Write_unlimited)
qed

text \<open>The block of the spec's scenario: the language \<open>go\<close> and one line.\<close>

theorem fenced_code_block_emits_witness:
  "(\<exists>r' w'. renderFencedCodeBlock (NewNodeRenderer (exampleConfig HeadingStyleATX)) (emptySink None)
        (Node (KindFencedCodeBlock (Some ''go'') [''fmt.Println()'' @ [NL]]) []) None True
          = Inr (r', w', WalkContinue, None)
      \<and> out w' = ''```go'' @ [NL] @ ''fmt.Println()'' @ [NL])
 \<and> (\<exists>r' w'. renderFencedCodeBlock (NewNodeRenderer (exampleConfig HeadingStyleATX))
        \<lparr>out = ''```go'' @ [NL] @ ''fmt.Println()'' @ [NL], room = None, failure = None\<rparr>
        (Node (KindFencedCodeBlock (Some ''go'') [''fmt.Println()'' @ [NL]]) []) None False
          = Inr (r', w', WalkContinue, None)
      \<and> out w' = ''```go'' @ [NL] @ ''fmt.Println()'' @ [NL] @ ''```'')"
  using
    fenced_code_block_emits [of "Node (KindFencedCodeBlock (Some ''go'') [''fmt.Println()'' @ [NL]]) []"
      "Some ''go''" "[''fmt.Println()'' @ [NL]]" "emptySink None"
      "NewNodeRenderer (exampleConfig HeadingStyleATX)" None]
    fenced_code_block_emits [of "Node (KindFencedCodeBlock (Some ''go'') [''fmt.Println()'' @ [NL]]) []"
      "Some ''go''" "[''fmt.Println()'' @ [NL]]"
      "\<lparr>out = ''```go'' @ [NL] @ ''fmt.Println()'' @ [NL], room = None, failure = None\<rparr>"
      "NewNodeRenderer (exampleConfig HeadingStyleATX)" None]
  by (auto simp: emptySink_def renderBlockSeparator_def continue_def)

lemma fenced_go_scenario:
  "Render (exampleConfig HeadingStyleATX) None
     (documentNode [Node (KindFencedCodeBlock (Some ''go'') [''fmt.Println()'' @ [NL]]) []])
   = Inr (''```go'' @ [NL] @ ''fmt.Println()'' @ [NL] @ ''```'' @ [NL], None)"
  by code_simp

section \<open>The block separator\<close>






text \<open>The scenario of the spec: two sibling paragraphs.\<close>

lemma two_paragraphs_scenario:
  "Render (exampleConfig HeadingStyleATX) None
     (documentNode [paragraphNode ''A'', paragraphNode ''B''])
   = Inr (''A'' @ [NL, NL] @ ''B'' @ [NL], None)"
  by code_simp

section \<open>Headings and the writer's record\<close>

lemma atx_writer_unchanged:
  "renderATXHeading r w h node nxt True = Inr (r', w', st, err) \<Longrightarrow> r' = r"
  "renderATXHeading r w h node None False = Inr (r', w', st, err) \<Longrightarrow> r' = r"
  by (auto simp: renderATXHeading_def continue_eq renderBlockSeparator_None Let_def
      split: if_splits sum.splits)

lemma setext_writer_unchanged:
  "renderSetextHeading r w h node nxt True = Inr (r', w', st, err) \<Longrightarrow> r' = r"
  "renderSetextHeading r w h node None False = Inr (r', w', st, err) \<Longrightarrow> r' = r"
  by (auto simp: renderSetextHeading_def continue_eq renderBlockSeparator_None Let_def
      split: if_splits sum.splits)

lemma heading_writer_unchanged:
  "renderHeading r w node nxt True = Inr (r', w', st, err) \<Longrightarrow> r' = r"
  "renderHeading r w node None False = Inr (r', w', st, err) \<Longrightarrow> r' = r"
  by (auto simp: renderHeading_def split: kind.splits if_splits
      dest: atx_writer_unchanged setext_writer_unchanged)

lemma atx_separator_only:
  "renderATXHeading r w h node (Some s) False = Inr (r', w', st, err) \<Longrightarrow>
   \<exists>w1. writer_Write r w1 [NL, NL] = (r', w')"
  by (auto simp: renderATXHeading_def continue_eq renderBlockSeparator_Some
      split: if_splits sum.splits)

lemma setext_separator_only:
  "renderSetextHeading r w h node (Some s) False = Inr (r', w', st, err) \<Longrightarrow>
   \<exists>w1. writer_Write r w1 [NL, NL] = (r', w')"
  by (auto simp: renderSetextHeading_def continue_eq renderBlockSeparator_Some Let_def
      split: if_splits sum.splits)

lemma heading_separator_only:
  "renderHeading r w node (Some s) False = Inr (r', w', st, err) \<Longrightarrow>
   \<exists>w1. writer_Write r w1 [NL, NL] = (r', w')"
  by (auto simp: renderHeading_def split: kind.splits if_splits
      dest: atx_separator_only setext_separator_only)

text \<open>
  C9.  The markers of a heading do not reach the writer's record.  On entry (the
  run of \<open>#\<close> and its space) and on exit without a following sibling (the closing
  run of \<open>#\<close>, the Setext underline) the heading's renderer returns the renderer
  state it was given, the writer's last-write record included; on exit with a
  following sibling the state returned is that state after one write through the
  writer, the separator's.  So after the walk
  of a heading that has no following sibling, the renderer state is the one in which
  the walk of the heading's children ended, started from the state before the
  heading: \<open>LastWriteBytes\<close> is what the children wrote last, not the markers.
\<close>

theorem heading_markers_bypass_writer:
  "(renderHeading r w node nxt True = Inr (r', w', st, err) \<longrightarrow> r' = r)
 \<and> (renderHeading r w node None False = Inr (r', w', st, err) \<longrightarrow> r' = r)
 \<and> (renderHeading r w node (Some s) False = Inr (r', w', st, err) \<longrightarrow>
       (\<exists>w1. writer_Write r w1 [NL, NL] = (r', w')))
 \<and> (Kind node = KindHeading h \<and> walkHelper r w node None = Inr (r', w', st, err) \<longrightarrow>
       (\<exists>w1 w2. walkChildren r w1 (Children node) = Inr (r', w2, WalkContinue, None)))"
proof (intro conjI impI)
  assume "renderHeading r w node nxt True = Inr (r', w', st, err)"
  then show "r' = r" by (rule heading_writer_unchanged)
next
  assume "renderHeading r w node None False = Inr (r', w', st, err)"
  then show "r' = r" by (rule heading_writer_unchanged)
next
  assume "renderHeading r w node (Some s) False = Inr (r', w', st, err)"
  then show "\<exists>w1. writer_Write r w1 [NL, NL] = (r', w')" by (rule heading_separator_only)
next
  assume "Kind node = KindHeading h \<and> walkHelper r w node None = Inr (r', w', st, err)"
  then have kind: "Kind node = KindHeading h"
    and a: "walkHelper r w node None = Inr (r', w', st, err)" by simp_all
  obtain k cs where n: "node = Node k cs" by (cases node)
  with kind have k: "k = KindHeading h" by simp
  from a obtain re we where
    entry: "nodeRendererFunc r w (Node k cs) None True = Inr (re, we, WalkContinue, None)"
    by (cases rule: handler_cases [of r w "Node k cs" None True]) (auto simp: n walkHelper_eq)
  from a entry obtain rc wc where
    kids: "walkChildren re we cs = Inr (rc, wc, WalkContinue, None)"
    by (cases rule: walkChildren_cases [of re we cs]) (auto simp: n walkHelper_eq)
  from a entry kids have
    exit: "nodeRendererFunc rc wc (Node k cs) None False = Inr (r', w', st, err)"
    by (simp add: n walkHelper_eq)
  from entry have "re = r"
    by (auto simp: nodeRendererFunc_eq k dest: heading_writer_unchanged)
  moreover from exit have "r' = rc"
    by (auto simp: nodeRendererFunc_eq k dest: heading_writer_unchanged)
  ultimately have "walkChildren r we (Children node) = Inr (r', wc, WalkContinue, None)"
    using kids by (simp add: n)
  then show "\<exists>w1 w2. walkChildren r w1 (Children node) = Inr (r', w2, WalkContinue, None)"
    by blast
qed

text \<open>
  A level-1 heading \<open>Title\<close> under the Setext style: the output ends with the
  underline, the record still holds \<open>Title\<close>, as after the walk of the text alone.
\<close>

theorem heading_markers_bypass_writer_witness:
  "walkHelper (NewNodeRenderer (exampleConfig HeadingStyleSetext)) (emptySink None)
      (headingNode 1 [''Title''] [textNode ''Title'']) None
    = Inr ((NewNodeRenderer (exampleConfig HeadingStyleSetext))
             \<lparr>writer := \<lparr>lastWriteBytes = ''Title'', lastWriteLen = 5\<rparr>\<rparr>,
           \<lparr>out = ''Title'' @ [NL] @ ''==='', room = None, failure = None\<rparr>, WalkContinue, None)
   \<and> (\<exists>w1 w2. walkChildren (NewNodeRenderer (exampleConfig HeadingStyleSetext)) w1
          [textNode ''Title'']
        = Inr ((NewNodeRenderer (exampleConfig HeadingStyleSetext))
                 \<lparr>writer := \<lparr>lastWriteBytes = ''Title'', lastWriteLen = 5\<rparr>\<rparr>,
               w2, WalkContinue, None))"
proof -
  let ?r = "NewNodeRenderer (exampleConfig HeadingStyleSetext)"
  let ?r' = "?r\<lparr>writer := \<lparr>lastWriteBytes = ''Title'', lastWriteLen = 5\<rparr>\<rparr>"
  let ?w' = "\<lparr>out = ''Title'' @ [NL] @ ''==='', room = None, failure = None\<rparr>"
  have walk: "walkHelper ?r (emptySink None) (headingNode 1 [''Title''] [textNode ''Title'']) None
                = Inr (?r', ?w', WalkContinue, None)"
    by code_simp
  from heading_markers_bypass_writer [where r = ?r and w = "emptySink None"
      and node = "headingNode 1 [''Title''] [textNode ''Title'']"
      and h = "\<lparr>Level = 1, Lines = [''Title'']\<rparr>"
      and r' = ?r' and w' = ?w' and st = WalkContinue and err = None and nxt = None] walk
  show ?thesis
    by (simp add: headingNode_def)
qed

section \<open>The trailing newline\<close>


text \<open>
  A recorded length beyond the recorded bytes, which no write leaves: the lookup of
  the exit panics.
\<close>

lemma document_exit_panics:
  "renderDocument (r\<lparr>writer := \<lparr>lastWriteBytes = [], lastWriteLen = 1\<rparr>\<rparr>) w node nxt False
     = Inl IndexOutOfRange"
  by (simp add: renderDocument_def LastWriteBytes_def index_def)








text \<open>
  A paragraph followed by an empty heading: the last write through the writer is
  the separator, the \<open>#\<close> goes to the sink directly, and the exit of the document
  writes nothing.  The output ends in no newline.
\<close>

lemma empty_heading_last_scenario:
  "Render (exampleConfig HeadingStyleATX) None
     (documentNode [paragraphNode ''a'', headingNode 1 [] []])
   = Inr (''a'' @ [NL, NL] @ ''#'', None)"
  by code_simp

text \<open>
  A renderer used again: its first document leaves the newline of the exit as the
  writer's last write, so the exit of its second document, an empty heading, writes
  nothing, where a new renderer writes the newline.
\<close>

lemma renderer_used_again_scenario:
  "renderer_Render (NewNodeRenderer (exampleConfig HeadingStyleATX)) (emptySink None)
     (documentNode [paragraphNode ''a''])
   = Inr ((NewNodeRenderer (exampleConfig HeadingStyleATX))
            \<lparr>writer := \<lparr>lastWriteBytes = [NL], lastWriteLen = 1\<rparr>\<rparr>,
          \<lparr>out = ''a'' @ [NL], room = None, failure = None\<rparr>, None)
   \<and> renderer_Render ((NewNodeRenderer (exampleConfig HeadingStyleATX))
            \<lparr>writer := \<lparr>lastWriteBytes = [NL], lastWriteLen = 1\<rparr>\<rparr>) (emptySink None)
        (documentNode [headingNode 1 [] []])
      = Inr ((NewNodeRenderer (exampleConfig HeadingStyleATX))
               \<lparr>writer := \<lparr>lastWriteBytes = [NL], lastWriteLen = 1\<rparr>\<rparr>,
             \<lparr>out = ''#'', room = None, failure = None\<rparr>, None)
   \<and> Render (exampleConfig HeadingStyleATX) None (documentNode [headingNode 1 [] []])
      = Inr (''#'' @ [NL], None)"
  by code_simp

end
